theory Spec2Isabelle
  imports Main "HOL-Library.Word" "HOL-Library.Multiset" "HOL-Library.AList"
begin

section \<open>Values shared by the demuxer and the rate enforcer\<close>

text \<open>
  Go's \<open>int64\<close> (timestamps, durations in time-base units and \<open>time.Duration\<close>)
  is a 64-bit word: \<open>+\<close> and \<open>-\<close> wrap around, and the comparisons of the source are the
  signed ones, written through \<open>sint\<close>.
\<close>

type_synonym int64 = "64 word"

definition gt0 :: "int64 \<Rightarrow> bool" where
  "gt0 x = (0 < sint x)"

definition sle :: "int64 \<Rightarrow> int64 \<Rightarrow> bool" where
  "sle a b = (sint a \<le> sint b)"

definition slt :: "int64 \<Rightarrow> int64 \<Rightarrow> bool" where
  "slt a b = (sint a < sint b)"

text \<open>\<open>astiav.Rational\<close>: a numerator and a denominator.\<close>

record rational =
  rat_num :: int
  rat_den :: int

definition nanosecondRational :: rational where
  "nanosecondRational = \<lparr>rat_num = 1, rat_den = 1000000000\<rparr>"

text \<open>
  The codec layer's \<open>astiav.RescaleQ\<close> and the repository's \<open>durationToTimeBase\<close> are
  not among the sources. The functions that call them take them as parameters, so every
  theorem below holds for whatever these two compute.
\<close>

type_synonym rescale_fn = "int64 \<Rightarrow> rational \<Rightarrow> rational \<Rightarrow> int64"
type_synonym to_time_base_fn = "int64 \<Rightarrow> rational \<Rightarrow> int64 \<times> int64"

text \<open>\<open>astiav.Packet\<close>, as far as the demuxer reads and writes it.\<close>

record packet =
  StreamIndex :: int
  Pts :: int64
  Dts :: int64
  Size :: int

section \<open>Demuxer looper\<close>

text \<open>
  \<open>demuxerLooperStream\<close>. The field \<open>s\<close> points to the demuxer stream; the looper
  reads two things through it: the stream's time base (fixed once the demuxer is
  created) and the packet durationer's \<open>flush()\<close>, whose result is an input of
  \<open>looping\<close> below.
\<close>

record demuxerLooperStream =
  duration :: int64
  durationD :: int64
  lastDuration :: int64
  restampDelta :: int64
  restampRemainder :: int64
  s_TimeBase :: rational

text \<open>
  \<open>demuxerLooper.ss\<close> is a Go map indexed by stream index: an association list with
  distinct keys, whose order stands for the order in which \<open>range\<close> visits the map.
\<close>

type_synonym demuxerLooper = "(int \<times> demuxerLooperStream) list"

definition newDemuxerLooperStream :: "rational \<Rightarrow> demuxerLooperStream" where
  "newDemuxerLooperStream tb =
     \<lparr>duration = 0, durationD = 0, lastDuration = 0, restampDelta = 0,
      restampRemainder = 0, s_TimeBase = tb\<rparr>"

definition newDemuxerLooper :: "(int \<times> rational) list \<Rightarrow> demuxerLooper" where
  "newDemuxerLooper ss = map (\<lambda>(idx, tb). (idx, newDemuxerLooperStream tb)) ss"

text \<open>\<open>reset\<close>: the loop over the map, one stream at a time.\<close>

fun reset :: "demuxerLooper \<Rightarrow> demuxerLooper" where
  "reset [] = []"
| "reset ((idx, s) # l) =
     (idx, s\<lparr>duration := 0, lastDuration := 0, restampRemainder := 0\<rparr>) # reset l"

text \<open>
  \<open>handlePkt\<close>: returns the looper, the packet as restamped and the value left in
  \<open>*previousDuration\<close>.
\<close>

definition updateDurations :: "demuxerLooperStream \<Rightarrow> int64 \<Rightarrow> demuxerLooperStream \<times> int64" where
  "updateDurations s previousDuration =
     (if gt0 previousDuration then (s\<lparr>duration := duration s + previousDuration\<rparr>, previousDuration)
      else if gt0 (lastDuration s) then (s\<lparr>lastDuration := 0\<rparr>, lastDuration s)
      else (s, previousDuration))"

definition restamp :: "demuxerLooperStream \<Rightarrow> packet \<Rightarrow> packet" where
  "restamp s pkt =
     (if gt0 (restampDelta s) then
        (let d = Pts pkt - Dts pkt;
             pkt1 = pkt\<lparr>Dts := Dts pkt + restampDelta s\<rparr>
         in pkt1\<lparr>Pts := Dts pkt1 + d\<rparr>)
      else pkt)"

definition handlePkt :: "demuxerLooper \<Rightarrow> packet \<Rightarrow> int64 \<Rightarrow> demuxerLooper \<times> packet \<times> int64" where
  "handlePkt l pkt previousDuration =
     (case map_of l (StreamIndex pkt) of
        None \<Rightarrow> (l, pkt, previousDuration)
      | Some s \<Rightarrow>
          (let (s1, pd) = updateDurations s previousDuration
           in (AList.update (StreamIndex pkt) s1 l, restamp s1 pkt, pd)))"

text \<open>
  \<open>looping\<close>. The first loop flushes every stream's durationer (\<open>flush idx\<close> is what
  \<open>s.s.pd.flush()\<close> returns for stream \<open>idx\<close>), updates the durations and takes the
  maximum; the second loop computes every stream's restamp delta.
\<close>

definition flushStream :: "rescale_fn \<Rightarrow> int64 \<Rightarrow> demuxerLooperStream \<Rightarrow> demuxerLooperStream" where
  "flushStream rescaleQ fl s =
     (let s1 = s\<lparr>lastDuration := fl\<rparr>;
          s2 = s1\<lparr>duration := duration s1 + lastDuration s1\<rparr>
      in s2\<lparr>durationD := rescaleQ (duration s2) (s_TimeBase s2) nanosecondRational\<rparr>)"

fun loopingFirst :: "rescale_fn \<Rightarrow> (int \<Rightarrow> int64) \<Rightarrow> demuxerLooper \<Rightarrow> int64 \<Rightarrow> demuxerLooper \<times> int64" where
  "loopingFirst rescaleQ flush [] maxDuration = ([], maxDuration)"
| "loopingFirst rescaleQ flush ((idx, s) # l) maxDuration =
     (let s1 = flushStream rescaleQ (flush idx) s;
          m = (if slt maxDuration (durationD s1) then durationD s1 else maxDuration);
          (l1, m1) = loopingFirst rescaleQ flush l m
      in ((idx, s1) # l1, m1))"

definition loopingStream :: "to_time_base_fn \<Rightarrow> int64 \<Rightarrow> demuxerLooperStream \<Rightarrow> demuxerLooperStream" where
  "loopingStream durationToTimeBase maxDuration s =
     (let d = maxDuration - durationD s + restampRemainder s;
          (s1, delta) =
            (if gt0 d then
               (let (i, r) = durationToTimeBase d (s_TimeBase s);
                    s0 = s\<lparr>restampRemainder := r\<rparr>
                in if gt0 i then (s0\<lparr>lastDuration := lastDuration s0 + i\<rparr>, duration s + i)
                   else (s0, duration s))
             else (s, duration s));
          s2 = s1\<lparr>restampDelta := restampDelta s1 + delta\<rparr>
      in s2\<lparr>duration := 0\<rparr>)"

definition looping :: "rescale_fn \<Rightarrow> to_time_base_fn \<Rightarrow> (int \<Rightarrow> int64) \<Rightarrow> demuxerLooper \<Rightarrow> demuxerLooper" where
  "looping rescaleQ durationToTimeBase flush l =
     (let (l1, maxDuration) = loopingFirst rescaleQ flush l 0
      in map (\<lambda>(idx, s). (idx, loopingStream durationToTimeBase maxDuration s)) l1)"

section \<open>Demuxer: stream table and \<open>Streams\<close>\<close>

text \<open>
  A Go panic (a nil dereference or an index out of range) is a value of the model.
\<close>

datatype go_panic = NilDereference | IndexOutOfRange

text \<open>
  \<open>astiav.Stream\<close> as the demuxer reads it, the part of \<open>Context\<close> that
  \<open>NewContextFromStream\<close> fills from it (the codec fields play no part here), and the
  \<open>Stream\<close> that \<open>demuxerStream.stream()\<close> builds.
\<close>

record avStream =
  av_Index :: int
  av_ID :: int
  av_CodecParameters :: nat
  av_TimeBase :: rational

record Context =
  ctx_Index :: int
  ctx_TimeBase :: rational

definition NewContextFromStream :: "avStream \<Rightarrow> Context" where
  "NewContextFromStream s = \<lparr>ctx_Index = av_Index s, ctx_TimeBase = av_TimeBase s\<rparr>"

record Stream =
  Stream_CodecParameters :: nat
  Stream_Ctx :: Context
  Stream_ID :: int
  Stream_Index :: int

text \<open>
  Wall-clock instants (\<open>time.Time\<close>) are integers: nanoseconds since Go's zero
  instant, so that \<open>IsZero\<close> is \<open>t = 0\<close>. \<open>Add\<close> adds a duration; \<open>Sub\<close> (and
  \<open>time.Until\<close>, which is \<open>Sub\<close> from the current instant) saturates at the ends of
  \<open>time.Duration\<close>.
\<close>

type_synonym time = int

definition time_Add :: "time \<Rightarrow> int64 \<Rightarrow> time" where
  "time_Add t d = t + sint d"

definition time_Sub :: "time \<Rightarrow> time \<Rightarrow> int64" where
  "time_Sub t u =
     (if t - u > 9223372036854775807 then word_of_int 9223372036854775807
      else if t - u < - 9223372036854775808 then word_of_int (- 9223372036854775808)
      else word_of_int (t - u))"

text \<open>
  The rate emulator of one stream. \<open>e_c\<close> is the \<open>astikit.Chan\<close>: the functions added
  to it, in order, each with the values it has captured. \<open>e_ps\<close> is the set of packets
  in flight (a Go map keyed by pointer, so equal packets may both be in it).
\<close>

datatype emulatorTask = Release packet time | StopTask

record demuxerRateEmulator =
  bufferDuration :: int64
  lastAt :: time
  e_ps :: "packet list"
  e_c :: "emulatorTask list"

definition newDemuxerRateEmulator :: "int64 \<Rightarrow> demuxerRateEmulator" where
  "newDemuxerRateEmulator b =
     (let e = \<lparr>bufferDuration = b, lastAt = 0, e_ps = [], e_c = []\<rparr>
      in if sint (bufferDuration e) \<le> 0 then e\<lparr>bufferDuration := 1000000000\<rparr> else e)"

record demuxerStream =
  ds_ctx :: Context
  ds_e :: demuxerRateEmulator
  ds_s :: avStream

definition stream :: "demuxerStream \<Rightarrow> Stream" where
  "stream d =
     \<lparr>Stream_CodecParameters = av_CodecParameters (ds_s d), Stream_Ctx = ds_ctx d,
      Stream_ID = av_ID (ds_s d), Stream_Index = av_Index (ds_s d)\<rparr>"

text \<open>
  The loop of \<open>NewDemuxer\<close> that fills the stream table \<open>d.ss\<close> from the format
  context's streams: \<open>d.ss[s.Index()] = ds\<close>.
\<close>

definition newDemuxerStream :: "int64 \<Rightarrow> avStream \<Rightarrow> demuxerStream" where
  "newDemuxerStream b s =
     \<lparr>ds_ctx = NewContextFromStream s, ds_e = newDemuxerRateEmulator b, ds_s = s\<rparr>"

fun storeStreams :: "int64 \<Rightarrow> avStream list \<Rightarrow> (int \<times> demuxerStream) list \<Rightarrow> (int \<times> demuxerStream) list" where
  "storeStreams b [] ss = ss"
| "storeStreams b (s # rest) ss =
     storeStreams b rest (AList.update (av_Index s) (newDemuxerStream b s) ss)"

text \<open>
  \<open>Streams\<close>. \<open>ss\<close> lists the entries of \<open>d.ss\<close> in the order in which
  \<open>range d.ss\<close> happens to visit them; \<open>d.ss[idx]\<close> of a missing key is the nil
  pointer, on which \<open>stream()\<close> panics.
\<close>

fun streamsOf :: "(int \<times> demuxerStream) list \<Rightarrow> int list \<Rightarrow> go_panic + Stream list" where
  "streamsOf ss [] = Inr []"
| "streamsOf ss (idx # idxs) =
     (case map_of ss idx of
        None \<Rightarrow> Inl NilDereference
      | Some d \<Rightarrow>
          (case streamsOf ss idxs of
             Inl e \<Rightarrow> Inl e
           | Inr out \<Rightarrow> Inr (stream d # out)))"

definition Streams :: "(int \<times> demuxerStream) list \<Rightarrow> go_panic + Stream list" where
  "Streams ss = (let idxs = map fst ss in streamsOf ss (sort idxs))"

section \<open>Runs of the demuxer looper\<close>

text \<open>
  What the read loop does with the looper: a packet read for a stream of the table goes
  through \<open>handlePkt\<close>, with the previous duration that the packet durationer gave
  for it; an EOF while looping calls \<open>looping\<close>, with what every stream's durationer
  gives back on \<open>flush()\<close>. The run returns the packets as emitted, in order.
\<close>

datatype looperOp = OpPkt packet int64 | OpLooping "int \<Rightarrow> int64"

fun looperRun :: "rescale_fn \<Rightarrow> to_time_base_fn \<Rightarrow> demuxerLooper \<Rightarrow> looperOp list \<Rightarrow> packet list" where
  "looperRun rescaleQ durationToTimeBase l [] = []"
| "looperRun rescaleQ durationToTimeBase l (OpPkt pkt previousDuration # ops) =
     (let (l', pkt', pd') = handlePkt l pkt previousDuration
      in pkt' # looperRun rescaleQ durationToTimeBase l' ops)"
| "looperRun rescaleQ durationToTimeBase l (OpLooping flush # ops) =
     looperRun rescaleQ durationToTimeBase (looping rescaleQ durationToTimeBase flush l) ops"

fun inputs :: "looperOp list \<Rightarrow> packet list" where
  "inputs [] = []"
| "inputs (OpPkt pkt previousDuration # ops) = pkt # inputs ops"
| "inputs (OpLooping flush # ops) = inputs ops"

definition emittedDts :: "int \<Rightarrow> packet list \<Rightarrow> int list" where
  "emittedDts k out = map (\<lambda>pkt. sint (Dts pkt)) (filter (\<lambda>pkt. StreamIndex pkt = k) out)"

text \<open>
  The original DTS of stream \<open>k\<close>, each shifted by the durations that the run gave the
  looper for the iterations before it: within an iteration the previous durations that are
  positive, and at its end the flushed duration.
\<close>

fun shiftedDts :: "int \<Rightarrow> int \<Rightarrow> int \<Rightarrow> looperOp list \<Rightarrow> int list" where
  "shiftedDts k acc shift [] = []"
| "shiftedDts k acc shift (OpPkt pkt previousDuration # ops) =
     (if StreamIndex pkt = k
      then (sint (Dts pkt) + shift) #
           shiftedDts k (acc + (if 0 < sint previousDuration then sint previousDuration else 0)) shift ops
      else shiftedDts k acc shift ops)"
| "shiftedDts k acc shift (OpLooping flush # ops) =
     shiftedDts k 0 (shift + acc + sint (flush k)) ops"

fun flushesNonNegative :: "int \<Rightarrow> looperOp list \<Rightarrow> bool" where
  "flushesNonNegative k [] = True"
| "flushesNonNegative k (OpPkt pkt previousDuration # ops) = flushesNonNegative k ops"
| "flushesNonNegative k (OpLooping flush # ops) = (0 \<le> sint (flush k) \<and> flushesNonNegative k ops)"

text \<open>
  No overflow: \<open>addOk a b\<close> says that the \<open>int64\<close> sum \<open>a + b\<close> is the sum of
  the integers. \<open>noOverflow\<close> says so of every addition that the run makes on the
  duration, the restamp delta and the DTS of stream \<open>k\<close>.
\<close>

definition addOk :: "int64 \<Rightarrow> int64 \<Rightarrow> bool" where
  "addOk a b = (sint (a + b) = sint a + sint b)"

definition pktAddsOk :: "demuxerLooperStream option \<Rightarrow> packet \<Rightarrow> int64 \<Rightarrow> bool" where
  "pktAddsOk so pkt previousDuration =
     (case so of
        None \<Rightarrow> True
      | Some s \<Rightarrow>
          (if gt0 previousDuration then addOk (duration s) previousDuration else True) \<and>
          (if gt0 (restampDelta s) then addOk (Dts pkt) (restampDelta s) else True))"

definition loopingAddsOk ::
  "rescale_fn \<Rightarrow> to_time_base_fn \<Rightarrow> (int \<Rightarrow> int64) \<Rightarrow> demuxerLooper \<Rightarrow> int \<Rightarrow> bool" where
  "loopingAddsOk rescaleQ durationToTimeBase flush l k =
     (case map_of l k of
        None \<Rightarrow> True
      | Some s \<Rightarrow>
          addOk (duration s) (flush k) \<and>
          (let (l1, maxDuration) = loopingFirst rescaleQ flush l 0;
               s1 = flushStream rescaleQ (flush k) s;
               d = maxDuration - durationD s1 + restampRemainder s1;
               i = fst (durationToTimeBase d (s_TimeBase s1))
           in if gt0 d \<and> gt0 i
              then addOk (duration s1) i \<and> addOk (restampDelta s1) (duration s1 + i)
              else addOk (restampDelta s1) (duration s1)))"

fun noOverflow ::
  "int \<Rightarrow> rescale_fn \<Rightarrow> to_time_base_fn \<Rightarrow> demuxerLooper \<Rightarrow> looperOp list \<Rightarrow> bool" where
  "noOverflow k rescaleQ durationToTimeBase l [] = True"
| "noOverflow k rescaleQ durationToTimeBase l (OpPkt pkt previousDuration # ops) =
     ((if StreamIndex pkt = k then pktAddsOk (map_of l k) pkt previousDuration else True) \<and>
      noOverflow k rescaleQ durationToTimeBase (fst (handlePkt l pkt previousDuration)) ops)"
| "noOverflow k rescaleQ durationToTimeBase l (OpLooping flush # ops) =
     (loopingAddsOk rescaleQ durationToTimeBase flush l k \<and>
      noOverflow k rescaleQ durationToTimeBase (looping rescaleQ durationToTimeBase flush l) ops)"


section \<open>Demuxer: rate emulator and \<open>readFrame\<close>\<close>

text \<open>
  Errors of the codec layer; \<open>is_eof err\<close> is \<open>errors.Is(err, astiav.ErrEof)\<close>.
  A node is named by a number, and a \<open>Node\<close> interface value that may be nil is a
  \<open>node option\<close>. \<open>emitError\<close> appends an \<open>EventError\<close> to the event handler's log.
\<close>

datatype av_error = ErrEof | ErrOther nat

definition is_eof :: "av_error \<Rightarrow> bool" where
  "is_eof err = (err = ErrEof)"

type_synonym node = nat

datatype event =
    EventError av_error string
  | EventRateEnforcerSwitchedIn "node option"
  | EventRateEnforcerSwitchedOut node

definition emitError :: "event list \<Rightarrow> av_error \<Rightarrow> string \<Rightarrow> event list" where
  "emitError eh err msg = eh @ [EventError err msg]"

text \<open>The packet pool, as the number of \<open>get\<close> and of \<open>put\<close> calls made on it.\<close>

record pktPool =
  pkt_gets :: nat
  pkt_puts :: nat

definition pktPool_get :: "pktPool \<Rightarrow> pktPool" where
  "pktPool_get p = p\<lparr>pkt_gets := pkt_gets p + 1\<rparr>"

definition pktPool_put :: "pktPool \<Rightarrow> pktPool" where
  "pktPool_put p = p\<lparr>pkt_puts := pkt_puts p + 1\<rparr>"

text \<open>
  \<open>demuxerRateEmulator.handlePkt\<close>. \<open>tb\<close> is \<open>e.s.ctx.TimeBase\<close>, \<open>ref\<close> the
  result of \<open>pkt.Ref(in)\<close> (\<open>None\<close> for success), \<open>now1\<close> what \<open>time.Now()\<close>
  returns where \<open>lastAt\<close> is zero and \<open>now2\<close> the instant \<open>time.Until\<close> reads. The
  last component of the result is the duration for which the caller sleeps, if it does.
\<close>

definition rateEmulator_handlePkt ::
  "rescale_fn \<Rightarrow> rational \<Rightarrow> demuxerRateEmulator \<Rightarrow> pktPool \<Rightarrow> event list \<Rightarrow> packet \<Rightarrow> int64 \<Rightarrow>
   av_error option \<Rightarrow> time \<Rightarrow> time \<Rightarrow> demuxerRateEmulator \<times> pktPool \<times> event list \<times> int64 option" where
  "rateEmulator_handlePkt rescaleQ tb e p eh inp previousDuration ref now1 now2 =
     (let p1 = pktPool_get p in
      case ref of
        Some err \<Rightarrow> (e, p1, emitError eh err ''refing packet'', None)
      | None \<Rightarrow>
          (let pkt = inp;
               e1 = e\<lparr>e_ps := e_ps e @ [pkt]\<rparr>;
               pktAt0 = (if lastAt e1 = 0 then now1 else lastAt e1);
               pktAt = (if gt0 previousDuration
                        then time_Add pktAt0 (rescaleQ previousDuration tb nanosecondRational)
                        else pktAt0);
               e2 = e1\<lparr>e_c := e_c e1 @ [Release pkt pktAt]\<rparr>;
               e3 = e2\<lparr>lastAt := pktAt\<rparr>;
               delta = time_Sub (lastAt e3) now2 - bufferDuration e3
           in (e3, p1, eh, if gt0 delta then Some delta else None)))"

definition rateEmulator_eof :: "demuxerRateEmulator \<Rightarrow> demuxerRateEmulator" where
  "rateEmulator_eof e = e\<lparr>e_c := e_c e @ [StopTask]\<rparr>"

text \<open>
  The demuxer. \<open>d_d\<close> is the packet dispatcher, as the list of what was dispatched
  (a packet and the descriptor's time base); \<open>d_eh\<close> the event handler, as the list
  of events emitted; \<open>formatContext\<close> the calls made on the format context
  (\<open>CallSeekFrame\<close> with the stream index and whether the backward flag is set; the
  timestamp is always the context's start time); \<open>d_sleeps\<close> the sleeps of the
  demuxer's goroutine.
\<close>

datatype fc_call = CallReadFrame | CallSeekFrame int bool

record Demuxer =
  d_d :: "(packet \<times> rational) list"
  d_eh :: "event list"
  emulateRate :: bool
  formatContext :: "fc_call list"
  d_l :: demuxerLooper
  loop :: "32 word"
  d_p :: pktPool
  d_ss :: "(int \<times> demuxerStream) list"
  statIncomingRate :: int
  d_sleeps :: "int64 list"

text \<open>
  What the world outside the demuxer answers during one \<open>readFrame\<close>: the result of
  \<open>ReadFrame\<close> (an error, or the packet read), of \<open>SeekFrame\<close>, of every
  stream's \<open>pd.flush()\<close>, of \<open>pd.handlePkt(pkt)\<close>, of the emulator's \<open>Ref\<close>, and
  the clock.
\<close>

record readFrameEnv =
  rf_ReadFrame :: "av_error + packet"
  rf_SeekFrame :: "av_error option"
  rf_flush :: "int \<Rightarrow> int64"
  rf_pd_handlePkt :: int64
  rf_Ref :: "av_error option"
  rf_Now1 :: time
  rf_Now2 :: time

text \<open>
  A \<open>DemuxerReadFrameErrorHandler\<close> is modelled by the pair \<open>(stop, handled)\<close> it
  returns for an error.
\<close>

type_synonym readFrameErrorHandler = "av_error \<Rightarrow> bool \<times> bool"

definition customHandled :: "readFrameErrorHandler option \<Rightarrow> av_error \<Rightarrow> bool option" where
  "customHandled h err =
     (case h of
        None \<Rightarrow> None
      | Some f \<Rightarrow> (let (stop, handled) = f err in if handled then Some stop else None))"

definition readFrameError ::
  "rescale_fn \<Rightarrow> to_time_base_fn \<Rightarrow> readFrameErrorHandler option \<Rightarrow> readFrameEnv \<Rightarrow> Demuxer \<Rightarrow>
   av_error \<Rightarrow> Demuxer \<times> bool" where
  "readFrameError rescaleQ durationToTimeBase h env d err =
     (if 0 < unat (loop d) \<and> is_eof err then
        (let d1 = d\<lparr>d_l := looping rescaleQ durationToTimeBase (rf_flush env) (d_l d)\<rparr>;
             d2 = d1\<lparr>formatContext := formatContext d1 @ [CallSeekFrame (- 1) True]\<rparr>
         in case rf_SeekFrame env of
              Some err' \<Rightarrow> (d2\<lparr>d_eh := emitError (d_eh d2) err' ''seeking to frame''\<rparr>, True)
            | None \<Rightarrow> (d2, False))
      else
        (let d1 = (if emulateRate d \<and> is_eof err
                   then d\<lparr>d_ss := map (\<lambda>(idx, s). (idx, s\<lparr>ds_e := rateEmulator_eof (ds_e s)\<rparr>)) (d_ss d)\<rparr>
                   else d)
         in case customHandled h err of
              Some stop \<Rightarrow> (d1, stop)
            | None \<Rightarrow>
                ((if \<not> is_eof err then d1\<lparr>d_eh := emitError (d_eh d1) err ''reading frame''\<rparr> else d1),
                 True)))"

definition readFramePkt :: "rescale_fn \<Rightarrow> readFrameEnv \<Rightarrow> Demuxer \<Rightarrow> packet \<Rightarrow> Demuxer \<times> bool" where
  "readFramePkt rescaleQ env d pkt =
     (let d1 = d\<lparr>statIncomingRate := statIncomingRate d + Size pkt * 8\<rparr> in
      case map_of (d_ss d1) (StreamIndex pkt) of
        None \<Rightarrow> (d1, False)
      | Some s \<Rightarrow>
          (let (l', pkt', previousDuration) = handlePkt (d_l d1) pkt (rf_pd_handlePkt env);
               d2 = d1\<lparr>d_l := l'\<rparr>
           in if emulateRate d2 then
                (let (e', p', eh', sleep) =
                       rateEmulator_handlePkt rescaleQ (ctx_TimeBase (ds_ctx s)) (ds_e s) (d_p d2) (d_eh d2)
                         pkt' previousDuration (rf_Ref env) (rf_Now1 env) (rf_Now2 env)
                 in (d2\<lparr>d_ss := AList.update (StreamIndex pkt) (s\<lparr>ds_e := e'\<rparr>) (d_ss d2),
                        d_p := p', d_eh := eh',
                        d_sleeps := d_sleeps d2 @ (case sleep of None \<Rightarrow> [] | Some x \<Rightarrow> [x])\<rparr>,
                     False))
              else (d2\<lparr>d_d := d_d d2 @ [(pkt', ctx_TimeBase (ds_ctx s))]\<rparr>, False)))"

definition readFrame ::
  "rescale_fn \<Rightarrow> to_time_base_fn \<Rightarrow> readFrameErrorHandler option \<Rightarrow> readFrameEnv \<Rightarrow> Demuxer \<Rightarrow>
   Demuxer \<times> bool" where
  "readFrame rescaleQ durationToTimeBase h env d =
     (let d1 = d\<lparr>d_p := pktPool_get (d_p d)\<rparr>;
          d2 = d1\<lparr>formatContext := formatContext d1 @ [CallReadFrame]\<rparr>;
          (d3, stop) =
            (case rf_ReadFrame env of
               Inl err \<Rightarrow> readFrameError rescaleQ durationToTimeBase h env d2 err
             | Inr pkt \<Rightarrow> readFramePkt rescaleQ env d2 pkt)
      in (d3\<lparr>d_p := pktPool_put (d_p d3)\<rparr>, stop))"


section \<open>Rate enforcer\<close>

text \<open>
  \<open>astiav.Frame\<close>: its PTS and its payload. A frame that was just taken from the
  pool, or unreferenced, carries no timestamp (the codec layer's \<open>AV_NOPTS_VALUE\<close>).
\<close>

record frame =
  frame_Pts :: int64
  frame_data :: nat

definition blankFrame :: frame where
  "blankFrame = \<lparr>frame_Pts = - 9223372036854775808, frame_data = 0\<rparr>"

record rateEnforcerItem =
  item_f :: frame
  item_n :: "node option"

record rateEnforcerSlot =
  slot_i :: "rateEnforcerItem option"
  slot_n :: "node option"
  ptsMax :: int64
  ptsMin :: int64

definition newRateEnforcerItem :: "frame \<Rightarrow> node option \<Rightarrow> rateEnforcerItem" where
  "newRateEnforcerItem f n = \<lparr>item_f = f, item_n = n\<rparr>"

text \<open>\<open>rateEnforcerSlot.next\<close> (\<open>next\<close> alone is a keyword of Isabelle).\<close>

definition slot_next :: "rateEnforcerSlot \<Rightarrow> rateEnforcerSlot" where
  "slot_next s = \<lparr>slot_i = None, slot_n = slot_n s, ptsMax = ptsMax s - ptsMin s + ptsMax s, ptsMin = ptsMax s\<rparr>"

text \<open>
  The frame pool: the number of \<open>get\<close> calls, and the frames given back by \<open>put\<close>,
  in order.
\<close>

record framePool =
  frame_gets :: nat
  frame_puts :: "frame list"

definition framePool_get :: "framePool \<Rightarrow> framePool" where
  "framePool_get p = p\<lparr>frame_gets := frame_gets p + 1\<rparr>"

definition framePool_put :: "framePool \<Rightarrow> frame \<Rightarrow> framePool" where
  "framePool_put p f = p\<lparr>frame_puts := frame_puts p @ [f]\<rparr>"

text \<open>
  The two implementations of \<open>RateEnforcerFiller\<close>: \<open>previousRateEnforcerFiller\<close>
  with its fields \<open>f\<close> and \<open>n\<close>, and \<open>frameRateEnforcerFiller\<close> with its frame.
\<close>

datatype filler = PreviousFiller "frame option" "node option" | FrameFiller frame

fun Fill :: "filler \<Rightarrow> frame option \<times> node option" where
  "Fill (PreviousFiller f n) = (f, n)"
| "Fill (FrameFiller f) = (Some f, None)"

text \<open>
  \<open>NoFill\<close>; \<open>ref\<close> is the result of \<open>f.f.Ref(fm)\<close>. The previous filler shares
  the rate enforcer's pool and event handler.
\<close>

fun NoFill :: "filler \<Rightarrow> framePool \<Rightarrow> event list \<Rightarrow> frame \<Rightarrow> node option \<Rightarrow> av_error option \<Rightarrow>
    filler \<times> framePool \<times> event list" where
  "NoFill (PreviousFiller f n) p eh fm n' ref =
     (let p1 = (case f of None \<Rightarrow> framePool_get p | Some _ \<Rightarrow> p)
      in case ref of
           None \<Rightarrow> (PreviousFiller (Some fm) n', p1, eh)
         | Some err \<Rightarrow>
             (PreviousFiller None n', framePool_put p1 blankFrame, emitError eh err ''refing frame''))"
| "NoFill (FrameFiller f) p eh fm n' ref = (FrameFiller f, p, eh)"

text \<open>
  \<open>Fill\<close> hands out the filler's own frame, so a restamp of the frame it returned is a
  restamp of the frame the filler holds.
\<close>

fun fillerFrameRestamped :: "filler \<Rightarrow> frame \<Rightarrow> filler" where
  "fillerFrameRestamped (PreviousFiller f n) f' = PreviousFiller (Some f') n"
| "fillerFrameRestamped (FrameFiller f) f' = FrameFiller f'"

record FrameHandlerPayload =
  p_Descriptor_TimeBase :: rational
  p_Frame :: frame
  p_Node :: "node option"

text \<open>
  The rate enforcer. \<open>r_c\<close> is the \<open>astikit.Chan\<close>: the functions added by
  \<open>HandleFrame\<close>, each as the frame copy and the payload it has captured. \<open>r_d\<close>
  is the frame dispatcher, as the list of frames dispatched; \<open>r_eh\<close> the events
  emitted. \<open>slotWidth\<close> is \<open>int64(1/(TimeBase.ToDouble()*FrameRate.ToDouble()))\<close>
  and \<open>period\<close> is \<open>time.Duration(1e9/FrameRate.ToDouble())\<close> of the output
  context: both are computed in floating point from values fixed at creation, and are
  taken as given. The statistics are the number of \<open>Add(1)\<close> calls, and for the
  average delay the values added.
\<close>

record RateEnforcer =
  adaptSlotsToIncomingFrames :: bool
  buf :: "rateEnforcerItem list"
  r_c :: "(frame \<times> FrameHandlerPayload) list"
  r_d :: "frame list"
  r_eh :: "event list"
  r_f :: filler
  r_n :: "node option"
  outputCtx_TimeBase :: rational
  slotWidth :: int64
  r_p :: framePool
  period :: int64
  restamper :: "(frame \<Rightarrow> frame) option"
  slotsCount :: nat
  slots :: "rateEnforcerSlot option list"
  statDelayAvg :: "int64 list"
  statFilledRate :: nat
  r_statIncomingRate :: nat
  statProcessedRate :: nat

record RateEnforcerOptions =
  o_AdaptSlotsToIncomingFrames :: bool
  o_Delay :: nat
  o_Filler :: "filler option"
  o_OutputCtx_TimeBase :: rational
  o_slotWidth :: int64
  o_period :: int64
  o_Restamper :: "(frame \<Rightarrow> frame) option"

definition NewRateEnforcer :: "RateEnforcerOptions \<Rightarrow> RateEnforcer" where
  "NewRateEnforcer opts =
     \<lparr>adaptSlotsToIncomingFrames = o_AdaptSlotsToIncomingFrames opts,
      buf = [], r_c = [], r_d = [], r_eh = [],
      r_f = (case o_Filler opts of None \<Rightarrow> PreviousFiller None None | Some f \<Rightarrow> f),
      r_n = None,
      outputCtx_TimeBase = o_OutputCtx_TimeBase opts,
      slotWidth = o_slotWidth opts,
      r_p = \<lparr>frame_gets = 0, frame_puts = []\<rparr>,
      period = o_period opts,
      restamper = o_Restamper opts,
      slotsCount = max (o_Delay opts) 1,
      slots = [None],
      statDelayAvg = [], statFilledRate = 0, r_statIncomingRate = 0, statProcessedRate = 0\<rparr>"

definition Switch :: "RateEnforcer \<Rightarrow> node option \<Rightarrow> RateEnforcer" where
  "Switch r n = r\<lparr>r_n := n\<rparr>"

definition newRateEnforcerSlot :: "RateEnforcer \<Rightarrow> frame \<Rightarrow> rateEnforcerSlot" where
  "newRateEnforcerSlot r f =
     \<lparr>slot_i = None, slot_n = r_n r, ptsMax = frame_Pts f + slotWidth r, ptsMin = frame_Pts f\<rparr>"

text \<open>
  \<open>HandleFrame\<close>, up to the point where the function is added to the chan;
  \<open>ref\<close> is the result of \<open>f.Ref(p.Frame)\<close>. The node is taken to be unclosed,
  so that \<open>DoWhenUnclosed\<close> runs its argument; pausing (\<open>HandlePause\<close>) only
  delays and is left out.
\<close>

definition HandleFrame :: "rescale_fn \<Rightarrow> RateEnforcer \<Rightarrow> FrameHandlerPayload \<Rightarrow> av_error option \<Rightarrow> RateEnforcer" where
  "HandleFrame rescaleQ r p ref =
     (let r1 = r\<lparr>r_statIncomingRate := r_statIncomingRate r + 1\<rparr>;
          r2 = r1\<lparr>r_p := framePool_get (r_p r1)\<rparr>
      in case ref of
           Some err \<Rightarrow> r2\<lparr>r_eh := emitError (r_eh r2) err ''refing frame''\<rparr>
         | None \<Rightarrow>
             (let f = p_Frame p;
                  f1 = f\<lparr>frame_Pts := rescaleQ (frame_Pts f) (p_Descriptor_TimeBase p) (outputCtx_TimeBase r2)\<rparr>
              in r2\<lparr>r_c := r_c r2 @ [(f1, p)]\<rparr>))"

text \<open>
  The function that \<open>HandleFrame\<close> added to the chan, run on the frame \<open>f\<close> and the
  payload \<open>p\<close> it captured; \<open>ref\<close> is the result of \<open>i.f.Ref(f)\<close>. Reading the last
  slot of an empty \<open>slots\<close> panics.
\<close>

definition handleFrameTask ::
  "rescale_fn \<Rightarrow> RateEnforcer \<Rightarrow> frame \<Rightarrow> FrameHandlerPayload \<Rightarrow> av_error option \<Rightarrow> go_panic + RateEnforcer" where
  "handleFrameTask rescaleQ r f p ref =
     (let r1 = r\<lparr>statProcessedRate := statProcessedRate r + 1\<rparr> in
      if slots r1 = [] then Inl IndexOutOfRange
      else
        (let l = last (slots r1);
             c1 = (case l of None \<Rightarrow> True | Some ls \<Rightarrow> r_n r1 \<noteq> slot_n ls \<and> r_n r1 = p_Node p);
             c2 = (case l of None \<Rightarrow> False
                   | Some ls \<Rightarrow> slot_n ls = p_Node p \<and> slt (ptsMax ls) (frame_Pts f));
             r2 = (if (c1 \<or> c2) \<and> (c1 \<or> (c2 \<and> adaptSlotsToIncomingFrames r1))
                   then r1\<lparr>slots := (slots r1)[length (slots r1) - 1 := Some (newRateEnforcerSlot r1 f)]\<rparr>
                   else r1);
             r3 = (if (c1 \<or> c2) \<and> c1
                   then r2\<lparr>r_eh := r_eh r2 @ [EventRateEnforcerSwitchedIn (p_Node p)]\<rparr>
                   else r2);
             r4 = r3\<lparr>r_p := framePool_get (r_p r3)\<rparr>
         in case ref of
              Some err \<Rightarrow>
                Inr (r4\<lparr>r_eh := emitError (r_eh r4) err ''refing frame'',
                        r_p := framePool_put (r_p r4) f\<rparr>)
            | None \<Rightarrow>
                (let i = newRateEnforcerItem f (p_Node p);
                     r5 = r4\<lparr>buf := buf r4 @ [i]\<rparr>;
                     r6 = (case l of
                             None \<Rightarrow> r5
                           | Some ls \<Rightarrow>
                               if slot_n ls = item_n i
                               then r5\<lparr>statDelayAvg := statDelayAvg r5 @
                                         [rescaleQ (ptsMax ls - frame_Pts (item_f i))
                                            (outputCtx_TimeBase r5) nanosecondRational]\<rparr>
                               else r5)
                 in Inr (r6\<lparr>r_p := framePool_put (r_p r6) f\<rparr>))))"

text \<open>
  \<open>distribute\<close>. The useful nodes are the keys of the Go map \<open>ns\<close>: the nodes,
  other than nil, of the slots other than nil.
\<close>

fun usefulNodes :: "rateEnforcerSlot option list \<Rightarrow> node list" where
  "usefulNodes [] = []"
| "usefulNodes (None # ss) = usefulNodes ss"
| "usefulNodes (Some s # ss) =
     (case slot_n s of None \<Rightarrow> usefulNodes ss | Some n \<Rightarrow> n # usefulNodes ss)"

definition isUseful :: "node list \<Rightarrow> node option \<Rightarrow> bool" where
  "isUseful ns n = (case n of None \<Rightarrow> False | Some x \<Rightarrow> x \<in> set ns)"

definition removeAt :: "nat \<Rightarrow> 'a list \<Rightarrow> 'a list" where
  "removeAt idx xs = take idx xs @ drop (idx + 1) xs"

text \<open>
  The loop through the buffer for one slot: \<open>idx\<close> runs over \<open>r.buf\<close>, which shrinks
  when an item is removed (\<open>idx--\<close>, then the loop's \<open>idx++\<close>).
\<close>

function scanBuffer ::
  "node list \<Rightarrow> rateEnforcerSlot \<Rightarrow> nat \<Rightarrow> rateEnforcerItem list \<Rightarrow> framePool \<Rightarrow>
   rateEnforcerSlot \<times> rateEnforcerItem list \<times> framePool" where
  "scanBuffer ns s idx bf p =
     (if idx < length bf then
        (let b = bf ! idx in
         if item_n b \<noteq> slot_n s then
           (if \<not> isUseful ns (item_n b)
            then scanBuffer ns s idx (removeAt idx bf) (framePool_put p (item_f b))
            else scanBuffer ns s (idx + 1) bf p)
         else if sle (ptsMin s) (frame_Pts (item_f b)) \<and> slt (frame_Pts (item_f b)) (ptsMax s) then
           (if slot_i s = None
            then scanBuffer ns (s\<lparr>slot_i := Some b\<rparr>) idx (removeAt idx bf) p
            else scanBuffer ns s idx (removeAt idx bf) (framePool_put p (item_f b)))
         else if slt (frame_Pts (item_f b)) (ptsMin s)
         then scanBuffer ns s idx (removeAt idx bf) (framePool_put p (item_f b))
         else scanBuffer ns s (idx + 1) bf p)
      else (s, bf, p))"
  by pat_completeness auto
termination
  by (relation "measure (\<lambda>(ns, s, idx, bf, p). 2 * length bf - idx)")
     (auto simp: removeAt_def)

declare scanBuffer.simps [simp del]

fun distributeSlots ::
  "node list \<Rightarrow> rateEnforcerSlot option list \<Rightarrow> rateEnforcerItem list \<Rightarrow> framePool \<Rightarrow>
   rateEnforcerSlot option list \<times> rateEnforcerItem list \<times> framePool" where
  "distributeSlots ns [] bf p = ([], bf, p)"
| "distributeSlots ns (None # ss) bf p =
     (let (ss', bf', p') = distributeSlots ns ss bf p in (None # ss', bf', p'))"
| "distributeSlots ns (Some s # ss) bf p =
     (if slot_i s \<noteq> None
      then (let (ss', bf', p') = distributeSlots ns ss bf p in (Some s # ss', bf', p'))
      else (let (s1, bf1, p1) = scanBuffer ns s 0 bf p;
                (ss', bf', p') = distributeSlots ns ss bf1 p1
            in (Some s1 # ss', bf', p')))"

definition distribute :: "RateEnforcer \<Rightarrow> RateEnforcer" where
  "distribute r =
     (let ns = usefulNodes (slots r);
          (ss', bf', p') = distributeSlots ns (slots r) (buf r) (r_p r)
      in r\<lparr>slots := ss', buf := bf', r_p := p'\<rparr>)"

text \<open>
  \<open>current\<close>; \<open>ref\<close> is the result of the \<open>Ref\<close> inside \<open>NoFill\<close>. Reading
  \<open>r.slots[0]\<close> of an empty \<open>slots\<close> panics.
\<close>

definition current ::
  "RateEnforcer \<Rightarrow> av_error option \<Rightarrow> go_panic + (RateEnforcer \<times> rateEnforcerItem option \<times> bool)" where
  "current r ref =
     (case slots r of
        [] \<Rightarrow> Inl IndexOutOfRange
      | s0 # _ \<Rightarrow>
          (case (case s0 of None \<Rightarrow> None | Some s \<Rightarrow> slot_i s) of
             Some i \<Rightarrow>
               (let (fl, p', eh') = NoFill (r_f r) (r_p r) (r_eh r) (item_f i) (item_n i) ref
                in Inr (r\<lparr>r_f := fl, r_p := p', r_eh := eh'\<rparr>, Some i, False))
           | None \<Rightarrow>
               (case Fill (r_f r) of
                  (Some f, n) \<Rightarrow> Inr (r, Some (newRateEnforcerItem f n), True)
                | (None, n) \<Rightarrow> Inr (r, None, True))))"


text \<open>
  \<open>tickFunc\<close>. \<open>tickVars\<close> are the two variables of \<open>startTick\<close> that
  \<open>tickFunc\<close> updates through pointers. \<open>ctxErr\<close> says whether \<open>ctx.Err()\<close> is
  set after the sleep. Besides \<open>stop\<close>, the model returns the values that the locals
  \<open>i\<close> and \<open>filled\<close> took, when the tick came to compute them.
\<close>

record tickVars =
  nextAt :: time
  previousNode :: "node option"

definition addNextSlot :: "RateEnforcer \<Rightarrow> RateEnforcer" where
  "addNextSlot r =
     r\<lparr>slots := slots r @ [case last (slots r) of None \<Rightarrow> None | Some prev \<Rightarrow> Some (slot_next prev)]\<rparr>"

definition dispatchItem :: "RateEnforcer \<Rightarrow> tickVars \<Rightarrow> rateEnforcerItem \<Rightarrow> bool \<Rightarrow> RateEnforcer \<times> tickVars \<times> frame" where
  "dispatchItem r tv i filled =
     (let f = (case restamper r of None \<Rightarrow> item_f i | Some restampFn \<Rightarrow> restampFn (item_f i));
          r1 = (if filled then r\<lparr>r_f := fillerFrameRestamped (r_f r) f\<rparr> else r);
          r2 = r1\<lparr>r_d := r_d r1 @ [f]\<rparr>
      in case item_n i of
           None \<Rightarrow> (r2, tv, f)
         | Some n \<Rightarrow>
             if previousNode tv \<noteq> item_n i
             then (r2\<lparr>r_eh := r_eh r2 @ [EventRateEnforcerSwitchedOut n]\<rparr>,
                   tv\<lparr>previousNode := item_n i\<rparr>, f)
             else (r2, tv, f))"

definition tickFunc ::
  "RateEnforcer \<Rightarrow> tickVars \<Rightarrow> bool \<Rightarrow> av_error option \<Rightarrow>
   go_panic + (RateEnforcer \<times> tickVars \<times> bool \<times> (rateEnforcerItem option \<times> bool) option)" where
  "tickFunc r tv ctxErr ref =
     (let tv1 = tv\<lparr>nextAt := time_Add (nextAt tv) (period r)\<rparr> in
      if ctxErr then Inr (r, tv1, True, None)
      else if slots r = [] then Inl IndexOutOfRange
      else if length (slots r) < slotsCount r then Inr (addNextSlot r, tv1, False, None)
      else
        (let r1 = distribute r in
         case current r1 ref of
           Inl e \<Rightarrow> Inl e
         | Inr (r2, None, filled) \<Rightarrow>
             if filled
             then (let r3 = r2\<lparr>statFilledRate := statFilledRate r2 + 1\<rparr>;
                       r4 = addNextSlot r3
                   in Inr (r4\<lparr>slots := tl (slots r4)\<rparr>, tv1, False, Some (None, filled)))
             else Inl NilDereference
         | Inr (r2, Some i, filled) \<Rightarrow>
             (let (r3, tv2, f) = dispatchItem r2 tv1 i filled;
                  r4 = (if filled then r3\<lparr>statFilledRate := statFilledRate r3 + 1\<rparr>
                        else r3\<lparr>r_p := framePool_put (r_p r3) f\<rparr>);
                  r5 = addNextSlot r4
              in Inr (r5\<lparr>slots := tl (slots r5)\<rparr>, tv2, False, Some (Some i, filled)))))"

text \<open>
  A run of the rate enforcer: calls of \<open>Switch\<close> and \<open>HandleFrame\<close>, the chan
  running the function at its head, and ticks, in any order; every one of them holds the
  mutex while it touches the state. The run keeps the reports of the ticks.
\<close>

datatype rateEnforcerOp =
    OpSwitch "node option"
  | OpHandleFrame FrameHandlerPayload "av_error option"
  | OpRunTask "av_error option"
  | OpTick bool "av_error option"

type_synonym tickReport = "(rateEnforcerItem option \<times> bool) option"

fun runOp ::
  "rescale_fn \<Rightarrow> RateEnforcer \<times> tickVars \<times> tickReport list \<Rightarrow> rateEnforcerOp \<Rightarrow>
   go_panic + (RateEnforcer \<times> tickVars \<times> tickReport list)" where
  "runOp rescaleQ (r, tv, reports) (OpSwitch n) = Inr (Switch r n, tv, reports)"
| "runOp rescaleQ (r, tv, reports) (OpHandleFrame p ref) = Inr (HandleFrame rescaleQ r p ref, tv, reports)"
| "runOp rescaleQ (r, tv, reports) (OpRunTask ref) =
     (case r_c r of
        [] \<Rightarrow> Inr (r, tv, reports)
      | (f, p) # rest \<Rightarrow>
          (case handleFrameTask rescaleQ (r\<lparr>r_c := rest\<rparr>) f p ref of
             Inl e \<Rightarrow> Inl e
           | Inr r' \<Rightarrow> Inr (r', tv, reports)))"
| "runOp rescaleQ (r, tv, reports) (OpTick ctxErr ref) =
     (case tickFunc r tv ctxErr ref of
        Inl e \<Rightarrow> Inl e
      | Inr (r', tv', stop, report) \<Rightarrow> Inr (r', tv', reports @ [report]))"

fun run ::
  "rescale_fn \<Rightarrow> RateEnforcer \<times> tickVars \<times> tickReport list \<Rightarrow> rateEnforcerOp list \<Rightarrow>
   go_panic + (RateEnforcer \<times> tickVars \<times> tickReport list)" where
  "run rescaleQ st [] = Inr st"
| "run rescaleQ st (op # ops) =
     (case runOp rescaleQ st op of
        Inl e \<Rightarrow> Inl e
      | Inr st' \<Rightarrow> run rescaleQ st' ops)"


section \<open>\<open>distribute\<close> as the specification words it\<close>

text \<open>
  The specification's \<open>distribute()\<close>: the useful nodes are the nodes referenced by
  a slot; every empty slot scans the buffer in order, and for each buffered item: of
  another node, it is dropped (returned to the pool and removed) if its node is not
  useful, and skipped otherwise; of the slot's node and with \<open>ptsMin \<le> pts < ptsMax\<close>,
  it is assigned if the slot is still empty and dropped otherwise; of the slot's node and
  with \<open>pts < ptsMin\<close>, it is dropped; otherwise it is left for a future slot. The
  result of a scan is the slot, the items left in the buffer and the frames dropped.
\<close>

definition usefulNodesSpec :: "rateEnforcerSlot option list \<Rightarrow> node set" where
  "usefulNodesSpec ss = {n. \<exists>s. Some s \<in> set ss \<and> slot_n s = Some n}"

definition inSlot :: "rateEnforcerSlot \<Rightarrow> rateEnforcerItem \<Rightarrow> bool" where
  "inSlot s b = (sint (ptsMin s) \<le> sint (frame_Pts (item_f b)) \<and>
                 sint (frame_Pts (item_f b)) < sint (ptsMax s))"

definition stale :: "rateEnforcerSlot \<Rightarrow> rateEnforcerItem \<Rightarrow> bool" where
  "stale s b = (sint (frame_Pts (item_f b)) < sint (ptsMin s))"

fun scanSpec ::
  "node set \<Rightarrow> rateEnforcerSlot \<Rightarrow> rateEnforcerItem list \<Rightarrow>
   rateEnforcerSlot \<times> rateEnforcerItem list \<times> frame list" where
  "scanSpec useful s [] = (s, [], [])"
| "scanSpec useful s (b # bs) =
     (if item_n b \<noteq> slot_n s then
        (if item_n b \<notin> Some ` useful
         then (let (s', kept, dropped) = scanSpec useful s bs in (s', kept, item_f b # dropped))
         else (let (s', kept, dropped) = scanSpec useful s bs in (s', b # kept, dropped)))
      else if inSlot s b then
        (if slot_i s = None
         then scanSpec useful (s\<lparr>slot_i := Some b\<rparr>) bs
         else (let (s', kept, dropped) = scanSpec useful s bs in (s', kept, item_f b # dropped)))
      else if stale s b
      then (let (s', kept, dropped) = scanSpec useful s bs in (s', kept, item_f b # dropped))
      else (let (s', kept, dropped) = scanSpec useful s bs in (s', b # kept, dropped)))"

fun distributeSlotsSpec ::
  "node set \<Rightarrow> rateEnforcerSlot option list \<Rightarrow> rateEnforcerItem list \<Rightarrow>
   rateEnforcerSlot option list \<times> rateEnforcerItem list \<times> frame list" where
  "distributeSlotsSpec useful [] bf = ([], bf, [])"
| "distributeSlotsSpec useful (so # ss) bf =
     (case so of
        Some s \<Rightarrow>
          if slot_i s = None then
            (let (s', kept, dropped) = scanSpec useful s bf;
                 (ss', bf', dropped') = distributeSlotsSpec useful ss kept
             in (Some s' # ss', bf', dropped @ dropped'))
          else (let (ss', bf', dropped') = distributeSlotsSpec useful ss bf in (so # ss', bf', dropped'))
      | None \<Rightarrow> (let (ss', bf', dropped') = distributeSlotsSpec useful ss bf in (so # ss', bf', dropped')))"

definition distributeSpec :: "RateEnforcer \<Rightarrow> RateEnforcer" where
  "distributeSpec r =
     (let (ss', bf', dropped) = distributeSlotsSpec (usefulNodesSpec (slots r)) (slots r) (buf r)
      in r\<lparr>slots := ss', buf := bf', r_p := (r_p r)\<lparr>frame_puts := frame_puts (r_p r) @ dropped\<rparr>\<rparr>)"

text \<open>
  The slot window is contiguous when, of every two adjacent slots other than nil, the
  second starts where the first ends.
\<close>

fun contiguous :: "rateEnforcerSlot option list \<Rightarrow> bool" where
  "contiguous (Some a # Some b # ss) = (ptsMin b = ptsMax a \<and> contiguous (Some b # ss))"
| "contiguous (x # y # ss) = contiguous (y # ss)"
| "contiguous [x] = True"
| "contiguous [] = True"


text \<open>
  Auxiliary notions for the slot window: the geometry of a slot (its node and bounds,
  without the item), the link between two adjacent slots, and the window with the next
  slot appended, as the deferred function of \<open>tickFunc\<close> appends it.
\<close>

definition geom :: "rateEnforcerSlot option \<Rightarrow> (node option \<times> int64 \<times> int64) option" where
  "geom so = map_option (\<lambda>s. (slot_n s, ptsMin s, ptsMax s)) so"

definition link :: "rateEnforcerSlot option \<Rightarrow> rateEnforcerSlot option \<Rightarrow> bool" where
  "link x y =
     (case x of None \<Rightarrow> True
      | Some a \<Rightarrow> (case y of None \<Rightarrow> True | Some b \<Rightarrow> ptsMin b = ptsMax a))"

definition appendNext :: "rateEnforcerSlot option list \<Rightarrow> rateEnforcerSlot option list" where
  "appendNext ss = ss @ [case last ss of None \<Rightarrow> None | Some prev \<Rightarrow> Some (slot_next prev)]"


text \<open>
  Words for the ticks: the item assigned to the first slot of a window; a frame as the
  restamper, if there is one, leaves it; and, over the reports of the ticks of a run,
  the number of ticks that filled, that dispatched the first slot's item, and that
  dispatched a frame at all. \<open>ticksPastWarmup\<close> counts, along a run, the ticks that
  found the context live and at least \<open>slotsCount\<close> slots in the window.
\<close>

definition headItem :: "rateEnforcerSlot option list \<Rightarrow> rateEnforcerItem option" where
  "headItem ss = (case ss of Some s # _ \<Rightarrow> slot_i s | _ \<Rightarrow> None)"

definition restamped :: "RateEnforcer \<Rightarrow> frame \<Rightarrow> frame" where
  "restamped r f = (case restamper r of None \<Rightarrow> f | Some restampFn \<Rightarrow> restampFn f)"

fun isFilled :: "tickReport \<Rightarrow> bool" where
  "isFilled (Some (i, filled)) = filled"
| "isFilled None = False"

fun isNodeSourced :: "tickReport \<Rightarrow> bool" where
  "isNodeSourced (Some (i, filled)) = (\<not> filled)"
| "isNodeSourced None = False"

fun isDispatch :: "tickReport \<Rightarrow> bool" where
  "isDispatch (Some (Some i, filled)) = True"
| "isDispatch _ = False"

definition filledCount :: "tickReport list \<Rightarrow> nat" where
  "filledCount reports = length (filter isFilled reports)"

definition nodeSourcedCount :: "tickReport list \<Rightarrow> nat" where
  "nodeSourcedCount reports = length (filter isNodeSourced reports)"

definition dispatchCount :: "tickReport list \<Rightarrow> nat" where
  "dispatchCount reports = length (filter isDispatch reports)"

fun pastWarmup :: "RateEnforcer \<Rightarrow> rateEnforcerOp \<Rightarrow> bool" where
  "pastWarmup r (OpTick ctxErr ref) = (\<not> ctxErr \<and> slotsCount r \<le> length (slots r))"
| "pastWarmup r _ = False"

fun ticksPastWarmup ::
  "rescale_fn \<Rightarrow> RateEnforcer \<times> tickVars \<times> tickReport list \<Rightarrow> rateEnforcerOp list \<Rightarrow> nat" where
  "ticksPastWarmup rescaleQ st [] = 0"
| "ticksPastWarmup rescaleQ st (op # ops) =
     (case runOp rescaleQ st op of
        Inl e \<Rightarrow> 0
      | Inr st' \<Rightarrow> (if pastWarmup (fst st) op then 1 else 0) + ticksPastWarmup rescaleQ st' ops)"


section \<open>Event logger with pattern merging\<close>

text \<open>
  Modelled from the spec: the event logger (\<open>newEventLogger\<close>, its leveled emitters,
  the flush at the end of the merging window and \<open>Close\<close>) is not among the sources;
  only its test, \<open>TestEventLogger\<close>, is. The model follows section 4.1 of the
  specification: the first occurrence of a pattern is forwarded to the sink at once,
  later ones only count, and when the window ends (on the tick, or on \<open>Close\<close>) every
  pattern seen at least twice gets one summary line. One thing is taken from the test and
  not from the specification: the merge table is keyed by the emitter's level together
  with the pattern, as the sink contents that the test expects require.

  A formatted emitter (\<open>Errorf(fmt, args...)\<close>) is given by its level and its expanded
  message, which is also its pattern; a keyed emitter (\<open>Errork(fmt, msg)\<close>) by its
  level, its format string, which is its pattern, and the message that is forwarded.
\<close>

datatype level = Debug | Info | Warn | Error

datatype emit = Formatted level string | Keyed level string string

fun emit_level :: "emit \<Rightarrow> level" where
  "emit_level (Formatted lv msg) = lv"
| "emit_level (Keyed lv fmt msg) = lv"

fun pattern :: "emit \<Rightarrow> string" where
  "pattern (Formatted lv msg) = msg"
| "pattern (Keyed lv fmt msg) = fmt"

fun message :: "emit \<Rightarrow> string" where
  "message (Formatted lv msg) = msg"
| "message (Keyed lv fmt msg) = msg"

definition mergeKey :: "emit \<Rightarrow> level \<times> string" where
  "mergeKey e = (emit_level e, pattern e)"

text \<open>Decimal digits of a number, for the summary line.\<close>

fun showNat :: "nat \<Rightarrow> string" where
  "showNat n = (if n < 10 then [char_of (48 + n)] else showNat (n div 10) @ [char_of (48 + n mod 10)])"

declare showNat.simps [simp del]

definition summary :: "string \<Rightarrow> nat \<Rightarrow> string" where
  "summary pat extras =
     ''astiencoder: '' @
     (if extras = 1 then ''pattern repeated once: ''
      else ''pattern repeated '' @ showNat extras @ '' times: '') @ pat"

text \<open>
  The logger: the merge table (key and number of occurrences, in the order of first
  occurrence) and the lines written to the sink.
\<close>

record eventLogger =
  entries :: "((level \<times> string) \<times> nat) list"
  sink :: "string list"

definition newEventLogger :: eventLogger where
  "newEventLogger = \<lparr>entries = [], sink = []\<rparr>"

fun bump :: "level \<times> string \<Rightarrow> ((level \<times> string) \<times> nat) list \<Rightarrow> ((level \<times> string) \<times> nat) list" where
  "bump k [] = [(k, 1)]"
| "bump k ((k', n) # t) = (if k = k' then (k', n + 1) # t else (k', n) # bump k t)"

definition emitCall :: "eventLogger \<Rightarrow> emit \<Rightarrow> eventLogger" where
  "emitCall lg e =
     \<lparr>entries = bump (mergeKey e) (entries lg),
      sink = (if mergeKey e \<in> fst ` set (entries lg) then sink lg else sink lg @ [message e])\<rparr>"

fun emits :: "eventLogger \<Rightarrow> emit list \<Rightarrow> eventLogger" where
  "emits lg [] = lg"
| "emits lg (e # es) = emits (emitCall lg e) es"

definition summaries :: "((level \<times> string) \<times> nat) list \<Rightarrow> string list" where
  "summaries t = map (\<lambda>(k, n). summary (snd k) (n - 1)) (filter (\<lambda>(k, n). 2 \<le> n) t)"

definition flushWindow :: "eventLogger \<Rightarrow> eventLogger" where
  "flushWindow lg = \<lparr>entries = [], sink = sink lg @ summaries (entries lg)\<rparr>"

text \<open>
  The lines that the claim counts for a list of calls: the messages of the first
  occurrences, in order, given the keys seen so far.
\<close>

fun firstMessages :: "(level \<times> string) set \<Rightarrow> emit list \<Rightarrow> string list" where
  "firstMessages seen [] = []"
| "firstMessages seen (e # es) =
     (if mergeKey e \<in> seen then firstMessages seen es
      else message e # firstMessages (insert (mergeKey e) seen) es)"

text \<open>
  \<open>TestEventLogger\<close>: the calls of its first part, and the sink contents that it
  requires after the window has ended, each line with its number of occurrences.
\<close>

definition testCalls :: "emit list" where
  "testCalls =
     [Formatted Error ''errorf-1'', Formatted Error ''errorf-1'', Formatted Error ''errorf-2'',
      Formatted Error ''errorf-3'', Formatted Error ''errorf-3'', Formatted Error ''errorf-3'',
      Formatted Info ''infof-1'', Formatted Info ''infof-1'', Formatted Info ''infof-2'',
      Formatted Info ''infof-3'', Formatted Info ''infof-3'', Formatted Info ''infof-3'',
      Keyed Debug ''debugk-%d'' ''debugk-1'', Keyed Debug ''debugk-%d'' ''debugk-2'',
      Keyed Debug ''debugk-%d'' ''debugk-3'',
      Keyed Error ''errork-%d'' ''errork-1'', Keyed Error ''errork-%d'' ''errork-2'',
      Keyed Error ''errork-%d'' ''errork-3'',
      Keyed Info ''infok-%d'' ''infok-1'', Keyed Info ''infok-%d'' ''infok-2'',
      Keyed Info ''infok-%d'' ''infok-3'',
      Keyed Warn ''warnk-%d'' ''warnk-1'', Keyed Warn ''warnk-%d'' ''warnk-2'',
      Keyed Warn ''warnk-%d'' ''warnk-3'',
      Formatted Error ''msg'', Formatted Error ''msg'',
      Formatted Info ''msg'', Formatted Info ''msg'']"

definition testExpected :: "(string \<times> nat) list" where
  "testExpected =
     [(''astiencoder: pattern repeated once: errorf-1'', 1),
      (''astiencoder: pattern repeated once: infof-1'', 1),
      (''astiencoder: pattern repeated 2 times: debugk-%d'', 1),
      (''astiencoder: pattern repeated 2 times: errork-%d'', 1),
      (''astiencoder: pattern repeated 2 times: errorf-3'', 1),
      (''astiencoder: pattern repeated 2 times: infok-%d'', 1),
      (''astiencoder: pattern repeated 2 times: infof-3'', 1),
      (''astiencoder: pattern repeated once: msg'', 2),
      (''astiencoder: pattern repeated 2 times: warnk-%d'', 1),
      (''debugk-1'', 1), (''errork-1'', 1), (''errorf-1'', 1), (''errorf-2'', 1),
      (''errorf-3'', 1), (''infok-1'', 1), (''infof-1'', 1), (''infof-2'', 1),
      (''infof-3'', 1), (''msg'', 2), (''warnk-1'', 1)]"

text \<open>
  The number of lines that the claim gives for a list of calls, with the pattern alone as
  the identity: the distinct patterns, plus one for every pattern occurring at least
  twice.
\<close>

definition claimedLines :: "emit list \<Rightarrow> nat" where
  "claimedLines es =
     (let ps = map pattern es
      in length (remdups ps) + length (filter (\<lambda>p. 2 \<le> count_list ps p) (remdups ps)))"

text \<open>The number of occurrences that the merge table holds for a key.\<close>

definition occurrences :: "((level \<times> string) \<times> nat) list \<Rightarrow> level \<times> string \<Rightarrow> nat" where
  "occurrences t k = (case map_of t k of None \<Rightarrow> 0 | Some n \<Rightarrow> n)"


section \<open>Concrete inputs used by the witnesses\<close>

definition av0 :: avStream where
  "av0 = \<lparr>av_Index = 0, av_ID = 256, av_CodecParameters = 7,
          av_TimeBase = \<lparr>rat_num = 1, rat_den = 25\<rparr>\<rparr>"

definition av1 :: avStream where
  "av1 = \<lparr>av_Index = 1, av_ID = 257, av_CodecParameters = 8,
          av_TimeBase = \<lparr>rat_num = 1, rat_den = 48000\<rparr>\<rparr>"

text \<open>
  Modelled from the spec: the codec layer's rescale, \<open>astiav.RescaleQ\<close>, which is not
  among the sources. The glossary gives it as \<open>x * fromTB / toTB\<close> with rounding; the
  rounding here is to the nearest integer, halves away from zero. It only instantiates
  the \<open>rescaleQ\<close> parameter where a theorem is evaluated at a concrete input.
\<close>

definition round_div :: "int \<Rightarrow> int \<Rightarrow> int" where
  "round_div a b =
     (if 0 \<le> a then (2 * a + b) div (2 * b) else - ((2 * (- a) + b) div (2 * b)))"

definition av_rescale_q :: rescale_fn where
  "av_rescale_q a bq cq =
     word_of_int (round_div (sint a * (rat_num bq * rat_den cq)) (rat_den bq * rat_num cq))"

text \<open>
  Modelled from the spec: \<open>durationToTimeBase\<close>, which is not among the sources. The
  spec says that it converts a positive duration in nanoseconds to the time base and
  leaves the sub-tick remainder; here the whole ticks that fit, and the nanoseconds left.
  It only instantiates the \<open>durationToTimeBase\<close> parameter at concrete inputs.
\<close>

definition durationToTimeBase_model :: to_time_base_fn where
  "durationToTimeBase_model d tb =
     (let i = (sint d * rat_den tb) div (rat_num tb * 1000000000)
      in (word_of_int i, word_of_int (sint d - (i * rat_num tb * 1000000000) div rat_den tb)))"

definition tb25 :: rational where
  "tb25 = \<lparr>rat_num = 1, rat_den = 25\<rparr>"

definition pkt0 :: packet where
  "pkt0 = \<lparr>StreamIndex = 0, Pts = 3, Dts = 2, Size = 100\<rparr>"

definition emulator0 :: demuxerRateEmulator where
  "emulator0 = \<lparr>bufferDuration = 1000000000, lastAt = 5000000000, e_ps = [], e_c = []\<rparr>"

definition pool0 :: pktPool where
  "pool0 = \<lparr>pkt_gets = 0, pkt_puts = 0\<rparr>"

definition demuxer0 :: Demuxer where
  "demuxer0 =
     \<lparr>d_d = [], d_eh = [], emulateRate = True, formatContext = [],
      d_l = newDemuxerLooper [(0, tb25), (1, tb25)], loop = 1,
      d_p = pool0, d_ss = storeStreams 0 [av0, av1] [], statIncomingRate = 0, d_sleeps = []\<rparr>"

definition envEofSeekFails :: readFrameEnv where
  "envEofSeekFails =
     \<lparr>rf_ReadFrame = Inl ErrEof, rf_SeekFrame = Some (ErrOther 5), rf_flush = (\<lambda>idx. 1),
      rf_pd_handlePkt = 0, rf_Ref = None, rf_Now1 = 3900000000, rf_Now2 = 3900000000\<rparr>"

definition tb1000 :: rational where
  "tb1000 = \<lparr>rat_num = 1, rat_den = 1000\<rparr>"

definition options0 :: "nat \<Rightarrow> RateEnforcerOptions" where
  "options0 delay =
     \<lparr>o_AdaptSlotsToIncomingFrames = False, o_Delay = delay, o_Filler = None,
      o_OutputCtx_TimeBase = tb1000, o_slotWidth = 40, o_period = 40000000,
      o_Restamper = None\<rparr>"

definition tickVars0 :: tickVars where
  "tickVars0 = \<lparr>nextAt = 1000000000, previousNode = None\<rparr>"

definition payload :: "node \<Rightarrow> int64 \<Rightarrow> FrameHandlerPayload" where
  "payload n pts =
     \<lparr>p_Descriptor_TimeBase = tb1000, p_Frame = \<lparr>frame_Pts = pts, frame_data = 0\<rparr>,
      p_Node = Some n\<rparr>"

definition frame0 :: frame where
  "frame0 = \<lparr>frame_Pts = 0, frame_data = 0\<rparr>"

definition pktA :: packet where
  "pktA = \<lparr>StreamIndex = 0, Pts = 10, Dts = 0, Size = 100\<rparr>"

definition pktB :: packet where
  "pktB = \<lparr>StreamIndex = 0, Pts = 11, Dts = 10, Size = 100\<rparr>"

definition pktC :: packet where
  "pktC = \<lparr>StreamIndex = 0, Pts = 0, Dts = 0, Size = 100\<rparr>"

definition pktD :: packet where
  "pktD = \<lparr>StreamIndex = 0, Pts = 1, Dts = 1, Size = 100\<rparr>"

definition item :: "node \<Rightarrow> int64 \<Rightarrow> rateEnforcerItem" where
  "item n pts = \<lparr>item_f = \<lparr>frame_Pts = pts, frame_data = 0\<rparr>, item_n = Some n\<rparr>"

definition enforcerWithBuffer :: RateEnforcer where
  "enforcerWithBuffer =
     (NewRateEnforcer (options0 1))
       \<lparr>slots := [Some \<lparr>slot_i = None, slot_n = Some 1, ptsMax = 80, ptsMin = 40\<rparr>],
        buf := [item 2 50, item 1 10, item 1 45, item 1 50, item 1 100]\<rparr>"


section \<open>Properties of the demuxer looper: \<open>reset\<close>\<close>

text \<open>
  C9. After \<open>reset()\<close> the looper has the same streams in the same places; every
  stream has \<open>duration\<close>, \<open>lastDuration\<close> and \<open>restampRemainder\<close> zero, and its
  other fields (\<open>restampDelta\<close>, \<open>durationD\<close> and the stream it points to) as before.
\<close>

theorem reset_zeroes_three_fields:
  "list_all2
     (\<lambda>(idx, s) (idx', s').
        idx' = idx \<and>
        duration s' = 0 \<and> lastDuration s' = 0 \<and> restampRemainder s' = 0 \<and>
        restampDelta s' = restampDelta s \<and> durationD s' = durationD s \<and>
        s_TimeBase s' = s_TimeBase s)
     l (reset l)"
  by (induction l rule: reset.induct) simp_all


section \<open>Properties of the demuxer looper: restamping\<close>

lemma map_of_loopingFirst:
  "map_of (fst (loopingFirst rescaleQ flush l m)) k =
     map_option (flushStream rescaleQ (flush k)) (map_of l k)"
  by (induction rescaleQ flush l m rule: loopingFirst.induct)
     (auto simp: Let_def split: prod.splits)

lemma map_of_map_entries:
  "map_of (map (\<lambda>(idx, s). (idx, g s)) l) k = map_option g (map_of l k)"
  by (induction l) auto

lemma map_of_looping:
  "map_of (looping rescaleQ durationToTimeBase flush l) k =
     map_option
       (\<lambda>s. loopingStream durationToTimeBase (snd (loopingFirst rescaleQ flush l 0))
              (flushStream rescaleQ (flush k) s))
       (map_of l k)"
proof -
  obtain l1 m where lf: "loopingFirst rescaleQ flush l 0 = (l1, m)" by (metis surj_pair)
  have "map_of l1 k = map_option (flushStream rescaleQ (flush k)) (map_of l k)"
    using map_of_loopingFirst [of rescaleQ flush l 0 k] lf by simp
  then show ?thesis
    by (simp add: looping_def lf map_of_map_entries option.map_comp comp_def)
qed

lemma handlePkt_stream:
  "map_of (fst (handlePkt l pkt pd)) k =
     (if k = StreamIndex pkt
      then map_option (\<lambda>s. fst (updateDurations s pd)) (map_of l k)
      else map_of l k)"
  by (auto simp: handlePkt_def update_conv' split: option.splits prod.splits)

lemma handlePkt_packet:
  "fst (snd (handlePkt l pkt pd)) =
     (case map_of l (StreamIndex pkt) of
        None \<Rightarrow> pkt
      | Some s \<Rightarrow> restamp (fst (updateDurations s pd)) pkt)"
  by (auto simp: handlePkt_def split: option.splits prod.splits)

lemma restamp_offset:
  "Pts (restamp s pkt) - Dts (restamp s pkt) = Pts pkt - Dts pkt"
  "StreamIndex (restamp s pkt) = StreamIndex pkt"
  "Size (restamp s pkt) = Size pkt"
  "Dts (restamp s pkt) = (if gt0 (restampDelta s) then Dts pkt + restampDelta s else Dts pkt)"
  by (simp_all add: restamp_def Let_def)

lemma handlePkt_offset:
  "Pts (fst (snd (handlePkt l pkt pd))) - Dts (fst (snd (handlePkt l pkt pd))) = Pts pkt - Dts pkt"
  "StreamIndex (fst (snd (handlePkt l pkt pd))) = StreamIndex pkt"
  by (cases "map_of l (StreamIndex pkt)"; simp add: handlePkt_packet restamp_offset(1,2))+

lemma looperRun_offsets:
  "map (\<lambda>pkt. (StreamIndex pkt, Pts pkt - Dts pkt)) (looperRun rescaleQ durationToTimeBase l ops) =
   map (\<lambda>pkt. (StreamIndex pkt, Pts pkt - Dts pkt)) (inputs ops)"
proof (induction ops arbitrary: l)
  case Nil
  show ?case by simp
next
  case (Cons op ops)
  show ?case
  proof (cases op)
    case (OpPkt pkt pd)
    obtain l' pkt' pd' where h: "handlePkt l pkt pd = (l', pkt', pd')" by (metis prod_cases3)
    with handlePkt_offset [of l pkt pd] have "Pts pkt' - Dts pkt' = Pts pkt - Dts pkt"
      "StreamIndex pkt' = StreamIndex pkt" by simp_all
    with OpPkt h Cons.IH [of l'] show ?thesis by simp
  next
    case (OpLooping flush)
    with Cons.IH show ?thesis by simp
  qed
qed

lemma updateDurations_fields:
  "restampDelta (fst (updateDurations s pd)) = restampDelta s"
  "duration (fst (updateDurations s pd)) = (if gt0 pd then duration s + pd else duration s)"
  by (simp_all add: updateDurations_def)

lemma flushStream_fields:
  "restampDelta (flushStream rescaleQ fl s) = restampDelta s"
  "duration (flushStream rescaleQ fl s) = duration s + fl"
  by (simp_all add: flushStream_def Let_def)

lemma loopingStream_fields:
  "duration (loopingStream durationToTimeBase m s) = 0"
  "restampDelta (loopingStream durationToTimeBase m s) =
     restampDelta s +
       (let d = m - durationD s + restampRemainder s;
            i = fst (durationToTimeBase d (s_TimeBase s))
        in if gt0 d \<and> gt0 i then duration s + i else duration s)"
  by (auto simp: loopingStream_def Let_def split: prod.splits)


lemma emittedDts_Cons:
  "emittedDts k (pkt # out) =
     (if StreamIndex pkt = k then sint (Dts pkt) # emittedDts k out else emittedDts k out)"
  by (simp add: emittedDts_def)

lemma head_below:
  assumes "sorted (i0 # js)" and "list_all2 (\<lambda>e i. i + dl \<le> e) es js"
  shows "\<forall>e \<in> set es. i0 + dl \<le> (e::int)"
proof
  fix e assume "e \<in> set es"
  then obtain n where n: "n < length es" "es ! n = e" by (auto simp: in_set_conv_nth)
  with assms(2) have "js ! n + dl \<le> e" and "n < length js"
    by (auto simp: list_all2_conv_all_nth)
  moreover from this assms(1) have "i0 \<le> js ! n" by auto
  ultimately show "i0 + dl \<le> e" by simp
qed

lemma run_stream_sorted:
  assumes "map_of l k = Some s" and "0 \<le> sint (duration s)" and "0 \<le> sh"
    and "sh \<le> sint (restampDelta s)"
    and "noOverflow k rescaleQ durationToTimeBase l ops" and "flushesNonNegative k ops"
    and "sorted (shiftedDts k (sint (duration s)) sh ops)"
  shows "sorted (emittedDts k (looperRun rescaleQ durationToTimeBase l ops)) \<and>
         list_all2 (\<lambda>e i. i + (sint (restampDelta s) - sh) \<le> e)
           (emittedDts k (looperRun rescaleQ durationToTimeBase l ops))
           (shiftedDts k (sint (duration s)) sh ops)"
  using assms
proof (induction ops arbitrary: l s sh)
  case Nil
  show ?case by (simp add: emittedDts_def)
next
  case (Cons op ops)
  show ?case
  proof (cases op)
    case (OpPkt pkt pd)
    obtain l' pkt' pd' where h: "handlePkt l pkt pd = (l', pkt', pd')" by (metis prod_cases3)
    have l': "l' = fst (handlePkt l pkt pd)" and pkt': "pkt' = fst (snd (handlePkt l pkt pd))"
      using h by simp_all
    have run: "looperRun rescaleQ durationToTimeBase l (op # ops) =
               pkt' # looperRun rescaleQ durationToTimeBase l' ops"
      using OpPkt h by simp
    have idx: "StreamIndex pkt' = StreamIndex pkt"
      unfolding pkt' by (rule handlePkt_offset)
    have no: "noOverflow k rescaleQ durationToTimeBase l' ops"
      using Cons.prems(5) OpPkt l' by simp
    have fn: "flushesNonNegative k ops" using Cons.prems(6) OpPkt by simp
    show ?thesis
    proof (cases "StreamIndex pkt = k")
      case False
      have m: "map_of l' k = Some s"
        unfolding l' using False Cons.prems(1) by (simp add: handlePkt_stream)
      have sd: "sorted (shiftedDts k (sint (duration s)) sh ops)"
        using Cons.prems(7) OpPkt False by simp
      from Cons.IH [OF m Cons.prems(2,3,4) no fn sd] False idx OpPkt run
      show ?thesis by (simp add: emittedDts_Cons)
    next
      case True
      define s1 where "s1 = fst (updateDurations s pd)"
      have m: "map_of l' k = Some s1"
        unfolding l' s1_def using True Cons.prems(1) by (simp add: handlePkt_stream)
      have ok: "pktAddsOk (Some s) pkt pd"
        using Cons.prems(5,1) OpPkt True by simp
      have d1: "sint (duration s1) =
                sint (duration s) + (if 0 < sint pd then sint pd else 0)"
        using ok by (auto simp: s1_def updateDurations_fields pktAddsOk_def gt0_def addOk_def split: if_splits)
      then have d1p: "0 \<le> sint (duration s1)" using Cons.prems(2) by simp
      have r1: "restampDelta s1 = restampDelta s"
        by (simp add: s1_def updateDurations_fields)
      have p': "pkt' = restamp s1 pkt"
        unfolding pkt' s1_def using True Cons.prems(1) by (simp add: handlePkt_packet)
      have e0: "sint (Dts pkt') = sint (Dts pkt) + sint (restampDelta s)"
      proof (cases "gt0 (restampDelta s)")
        case True
        with ok show ?thesis
          by (auto simp: p' restamp_offset r1 pktAddsOk_def addOk_def split: if_splits)
      next
        case False
        with Cons.prems(3,4) have "sint (restampDelta s) = 0" by (simp add: gt0_def)
        with False show ?thesis by (simp add: p' restamp_offset r1)
      qed
      have sdall: "sorted ((sint (Dts pkt) + sh) # shiftedDts k (sint (duration s1)) sh ops)"
        using Cons.prems(7) OpPkt True d1 by simp
      then have sd: "sorted (shiftedDts k (sint (duration s1)) sh ops)" by simp
      from Cons.IH [OF m d1p Cons.prems(3) Cons.prems(4) [folded r1] no fn sd]
      have ih1: "sorted (emittedDts k (looperRun rescaleQ durationToTimeBase l' ops))"
        and ih2: "list_all2 (\<lambda>e i. i + (sint (restampDelta s) - sh) \<le> e)
           (emittedDts k (looperRun rescaleQ durationToTimeBase l' ops))
           (shiftedDts k (sint (duration s1)) sh ops)"
        by (simp_all add: r1)
      from head_below [OF sdall ih2]
      have hb: "\<forall>e \<in> set (emittedDts k (looperRun rescaleQ durationToTimeBase l' ops)).
                  sint (Dts pkt') \<le> e"
        by (simp add: e0 algebra_simps)
      show ?thesis
        using ih1 ih2 hb e0 True idx OpPkt run d1
        by (simp add: emittedDts_Cons)
    qed
  next
    case (OpLooping flush)
    define m where "m = snd (loopingFirst rescaleQ flush l 0)"
    define s1 where "s1 = flushStream rescaleQ (flush k) s"
    define s' where "s' = loopingStream durationToTimeBase m s1"
    define d where "d = m - durationD s1 + restampRemainder s1"
    define i where "i = fst (durationToTimeBase d (s_TimeBase s1))"
    let ?l' = "looping rescaleQ durationToTimeBase flush l"
    have ml': "map_of ?l' k = Some s'"
      using Cons.prems(1) by (simp add: map_of_looping s'_def s1_def m_def)
    have ok: "loopingAddsOk rescaleQ durationToTimeBase flush l k"
      and no: "noOverflow k rescaleQ durationToTimeBase ?l' ops"
      using Cons.prems(5) OpLooping by simp_all
    have fl: "0 \<le> sint (flush k)" and fn: "flushesNonNegative k ops"
      using Cons.prems(6) OpLooping by simp_all
    from ok Cons.prems(1)
    have a1: "addOk (duration s) (flush k)"
      and a2: "if gt0 d \<and> gt0 i
               then addOk (duration s1) i \<and> addOk (restampDelta s1) (duration s1 + i)
               else addOk (restampDelta s1) (duration s1)"
      by (simp_all add: loopingAddsOk_def Let_def s1_def d_def i_def m_def split: prod.splits)
    have D1: "sint (duration s1) = sint (duration s) + sint (flush k)"
      using a1 by (simp add: s1_def flushStream_fields addOk_def)
    have r1: "restampDelta s1 = restampDelta s"
      by (simp add: s1_def flushStream_fields)
    have d0: "sint (duration s') = 0"
      by (simp add: s'_def loopingStream_fields)
    have rs': "restampDelta s' =
        restampDelta s1 + (if gt0 d \<and> gt0 i then duration s1 + i else duration s1)"
      by (simp add: s'_def loopingStream_fields Let_def d_def i_def)
    have grow: "sint (restampDelta s) + sint (duration s1) \<le> sint (restampDelta s')"
    proof (cases "gt0 d \<and> gt0 i")
      case True
      with a2 have "sint (restampDelta s') = sint (restampDelta s1) + (sint (duration s1) + sint i)"
        by (auto simp: rs' addOk_def split: if_splits)
      moreover have "0 < sint i" using True by (simp add: gt0_def)
      ultimately show ?thesis by (simp add: r1)
    next
      case False
      with a2 have "sint (restampDelta s') = sint (restampDelta s1) + sint (duration s1)"
        by (auto simp: rs' addOk_def split: if_splits)
      then show ?thesis by (simp add: r1)
    qed
    define sh' where "sh' = sh + sint (duration s) + sint (flush k)"
    have sh'0: "0 \<le> sh'" using Cons.prems(2,3) fl by (simp add: sh'_def)
    have sh'le: "sh' \<le> sint (restampDelta s')"
      using grow D1 Cons.prems(4) by (simp add: sh'_def)
    have sd: "sorted (shiftedDts k (sint (duration s')) sh' ops)"
      using Cons.prems(7) OpLooping by (simp add: d0 sh'_def)
    have d0': "0 \<le> sint (duration s')" by (simp add: d0)
    from Cons.IH [OF ml' d0' sh'0 sh'le no fn sd]
    have ih1: "sorted (emittedDts k (looperRun rescaleQ durationToTimeBase ?l' ops))"
      and ih2: "list_all2 (\<lambda>e i. i + (sint (restampDelta s') - sh') \<le> e)
           (emittedDts k (looperRun rescaleQ durationToTimeBase ?l' ops))
           (shiftedDts k 0 sh' ops)"
      by (simp_all add: d0)
    have mono: "sint (restampDelta s) - sh \<le> sint (restampDelta s') - sh'"
      using grow D1 by (simp add: sh'_def)
    have "list_all2 (\<lambda>e i. i + (sint (restampDelta s) - sh) \<le> e)
           (emittedDts k (looperRun rescaleQ durationToTimeBase ?l' ops))
           (shiftedDts k 0 sh' ops)"
      using ih2 mono by (auto elim!: list_all2_mono)
    with ih1 OpLooping show ?thesis by (simp add: sh'_def)
  qed
qed


lemma map_of_newDemuxerLooper:
  "map_of (newDemuxerLooper ss) k = map_option newDemuxerLooperStream (map_of ss k)"
  unfolding newDemuxerLooper_def by (induction ss) auto

lemma looping_grows:
  assumes "map_of l k = Some s"
    and "loopingAddsOk rescaleQ durationToTimeBase flush l k"
  shows "\<exists>s'. map_of (looping rescaleQ durationToTimeBase flush l) k = Some s' \<and>
           duration s' = 0 \<and>
           sint (restampDelta s) + sint (duration s) + sint (flush k) \<le> sint (restampDelta s')"
proof -
  define m where "m = snd (loopingFirst rescaleQ flush l 0)"
  define s1 where "s1 = flushStream rescaleQ (flush k) s"
  define s' where "s' = loopingStream durationToTimeBase m s1"
  define d where "d = m - durationD s1 + restampRemainder s1"
  define i where "i = fst (durationToTimeBase d (s_TimeBase s1))"
  have ml': "map_of (looping rescaleQ durationToTimeBase flush l) k = Some s'"
    using assms(1) by (simp add: map_of_looping s'_def s1_def m_def)
  from assms
  have a1: "addOk (duration s) (flush k)"
    and a2: "if gt0 d \<and> gt0 i
             then addOk (duration s1) i \<and> addOk (restampDelta s1) (duration s1 + i)
             else addOk (restampDelta s1) (duration s1)"
    by (simp_all add: loopingAddsOk_def Let_def s1_def d_def i_def m_def split: prod.splits)
  have D1: "sint (duration s1) = sint (duration s) + sint (flush k)"
    using a1 by (simp add: s1_def flushStream_fields addOk_def)
  have r1: "restampDelta s1 = restampDelta s"
    by (simp add: s1_def flushStream_fields)
  have rs': "restampDelta s' =
      restampDelta s1 + (if gt0 d \<and> gt0 i then duration s1 + i else duration s1)"
    by (simp add: s'_def loopingStream_fields Let_def d_def i_def)
  have "sint (restampDelta s) + sint (duration s1) \<le> sint (restampDelta s')"
  proof (cases "gt0 d \<and> gt0 i")
    case True
    with a2 have "sint (restampDelta s') = sint (restampDelta s1) + (sint (duration s1) + sint i)"
      by (auto simp: rs' addOk_def split: if_splits)
    moreover have "0 < sint i" using True by (simp add: gt0_def)
    ultimately show ?thesis by (simp add: r1)
  next
    case False
    with a2 have "sint (restampDelta s') = sint (restampDelta s1) + sint (duration s1)"
      by (auto simp: rs' addOk_def split: if_splits)
    then show ?thesis by (simp add: r1)
  qed
  with D1 ml' show ?thesis by (simp add: s'_def loopingStream_fields)
qed

text \<open>
  C1, amended. Along any run of the looper, every packet is emitted with its stream index
  and with its PTS minus its DTS as read (in \<open>int64\<close> arithmetic); \<open>handlePkt\<close>
  emits the DTS plus the stream's restamp delta when that delta is positive, and the DTS
  as read otherwise; \<open>looping\<close> raises a stream's restamp delta by at least the
  duration accumulated for the iteration, the flushed duration included, when its
  additions do not overflow. On a stream of the looper, the emitted DTS are non-decreasing
  provided that no addition on the stream overflows, that the flushed durations are not
  negative, and that the DTS as read, each shifted by the durations given for the
  iterations before it, are non-decreasing.
\<close>

theorem looper_restamp:
  "map (\<lambda>pkt. (StreamIndex pkt, Pts pkt - Dts pkt)) (looperRun rescaleQ durationToTimeBase l ops) =
     map (\<lambda>pkt. (StreamIndex pkt, Pts pkt - Dts pkt)) (inputs ops) \<and>
   (\<forall>s. map_of l (StreamIndex pkt) = Some s \<longrightarrow>
        Dts (fst (snd (handlePkt l pkt pd))) =
          (if 0 < sint (restampDelta s) then Dts pkt + restampDelta s else Dts pkt)) \<and>
   (\<forall>s. map_of l k = Some s \<and> loopingAddsOk rescaleQ durationToTimeBase flush l k \<longrightarrow>
        (\<exists>s'. map_of (looping rescaleQ durationToTimeBase flush l) k = Some s' \<and>
           sint (restampDelta s) + sint (duration s) + sint (flush k) \<le> sint (restampDelta s'))) \<and>
   (k \<in> fst ` set ss \<and>
    noOverflow k rescaleQ durationToTimeBase (newDemuxerLooper ss) ops \<and>
    flushesNonNegative k ops \<and>
    sorted (shiftedDts k 0 0 ops) \<longrightarrow>
      sorted (emittedDts k (looperRun rescaleQ durationToTimeBase (newDemuxerLooper ss) ops)))"
proof -
  have a: "map (\<lambda>pkt. (StreamIndex pkt, Pts pkt - Dts pkt)) (looperRun rescaleQ durationToTimeBase l ops) =
     map (\<lambda>pkt. (StreamIndex pkt, Pts pkt - Dts pkt)) (inputs ops)"
    by (rule looperRun_offsets)
  have b: "Dts (fst (snd (handlePkt l pkt pd))) =
          (if 0 < sint (restampDelta s) then Dts pkt + restampDelta s else Dts pkt)"
    if "map_of l (StreamIndex pkt) = Some s" for s
    using that by (simp add: handlePkt_packet restamp_offset updateDurations_fields gt0_def)
  have c: "\<exists>s'. map_of (looping rescaleQ durationToTimeBase flush l) k = Some s' \<and>
           sint (restampDelta s) + sint (duration s) + sint (flush k) \<le> sint (restampDelta s')"
    if "map_of l k = Some s" "loopingAddsOk rescaleQ durationToTimeBase flush l k" for s
    using looping_grows [OF that] by blast
  have d: "sorted (emittedDts k (looperRun rescaleQ durationToTimeBase (newDemuxerLooper ss) ops))"
    if k: "k \<in> fst ` set ss"
      and no: "noOverflow k rescaleQ durationToTimeBase (newDemuxerLooper ss) ops"
      and fn: "flushesNonNegative k ops"
      and sd: "sorted (shiftedDts k 0 0 ops)"
  proof -
    from k have "map_of ss k \<noteq> None" by (simp add: map_of_eq_None_iff)
    then obtain tb where "map_of ss k = Some tb" by blast
    then have m: "map_of (newDemuxerLooper ss) k = Some (newDemuxerLooperStream tb)"
      by (simp add: map_of_newDemuxerLooper)
    have z: "sint (duration (newDemuxerLooperStream tb)) = 0"
      "sint (restampDelta (newDemuxerLooperStream tb)) = 0"
      by (simp_all add: newDemuxerLooperStream_def)
    from run_stream_sorted [OF m _ _ _ no fn, of 0] sd z show ?thesis by simp
  qed
  from a b c d show ?thesis by blast
qed

text \<open>
  C1, as the claim states it, fails: the emitted DTS of a stream can decrease at a loop
  boundary. A stream with two packets, DTS 0 and 10 and PTS 10 and 11, for which the
  durationer gives the previous durations 0 and 1 and flushes 1, gets a restamp delta of
  2 after the first iteration: the emitted DTS are 0, 10, 2, 12.
\<close>

theorem looper_restamp_counterexample:
  "\<not> sorted (emittedDts 0
        (looperRun av_rescale_q durationToTimeBase_model (newDemuxerLooper [(0, tb25)])
           [OpPkt pktA 0, OpPkt pktB 1, OpLooping (\<lambda>idx. 1), OpPkt pktA 0, OpPkt pktB 1]))"
  by code_simp

theorem looper_restamp_witness:
  "map_of (newDemuxerLooper [(0, tb25), (1, tb1000)]) (StreamIndex pktC) =
     Some (newDemuxerLooperStream tb25) \<and>
   loopingAddsOk av_rescale_q durationToTimeBase_model (\<lambda>idx. 1)
     (newDemuxerLooper [(0, tb25), (1, tb1000)]) 0 \<and>
   (0::int) \<in> fst ` set [(0, tb25), (1, tb1000)] \<and>
   noOverflow 0 av_rescale_q durationToTimeBase_model (newDemuxerLooper [(0, tb25), (1, tb1000)])
     [OpPkt pktC 0, OpPkt pktD 1, OpLooping (\<lambda>idx. 1), OpPkt pktC 0, OpPkt pktD 1,
      OpLooping (\<lambda>idx. 1), OpPkt pktC 0] \<and>
   flushesNonNegative 0
     [OpPkt pktC 0, OpPkt pktD 1, OpLooping (\<lambda>idx. 1), OpPkt pktC 0, OpPkt pktD 1,
      OpLooping (\<lambda>idx. 1), OpPkt pktC 0] \<and>
   sorted (shiftedDts 0 0 0
     [OpPkt pktC 0, OpPkt pktD 1, OpLooping (\<lambda>idx. 1), OpPkt pktC 0, OpPkt pktD 1,
      OpLooping (\<lambda>idx. 1), OpPkt pktC 0]) \<and>
   sorted (emittedDts 0
     (looperRun av_rescale_q durationToTimeBase_model (newDemuxerLooper [(0, tb25), (1, tb1000)])
        [OpPkt pktC 0, OpPkt pktD 1, OpLooping (\<lambda>idx. 1), OpPkt pktC 0, OpPkt pktD 1,
         OpLooping (\<lambda>idx. 1), OpPkt pktC 0])) \<and>
   emittedDts 0
     (looperRun av_rescale_q durationToTimeBase_model (newDemuxerLooper [(0, tb25), (1, tb1000)])
        [OpPkt pktC 0, OpPkt pktD 1, OpLooping (\<lambda>idx. 1), OpPkt pktC 0, OpPkt pktD 1,
         OpLooping (\<lambda>idx. 1), OpPkt pktC 0]) = [0, 1, 2, 3, 4]"
proof -
  define ops where "ops = [OpPkt pktC 0, OpPkt pktD 1, OpLooping (\<lambda>idx. 1), OpPkt pktC 0, OpPkt pktD 1,
      OpLooping (\<lambda>idx::int. 1::int64), OpPkt pktC 0]"
  have m: "map_of (newDemuxerLooper [(0, tb25), (1, tb1000)]) (StreamIndex pktC) =
     Some (newDemuxerLooperStream tb25)"
    by (simp add: newDemuxerLooper_def pktC_def)
  have la: "loopingAddsOk av_rescale_q durationToTimeBase_model (\<lambda>idx. 1)
     (newDemuxerLooper [(0, tb25), (1, tb1000)]) 0"
    by code_simp
  have k: "(0::int) \<in> fst ` set [(0, tb25), (1, tb1000)]" by simp
  have no: "noOverflow 0 av_rescale_q durationToTimeBase_model (newDemuxerLooper [(0, tb25), (1, tb1000)]) ops"
    unfolding ops_def by code_simp
  have fn: "flushesNonNegative 0 ops" unfolding ops_def by code_simp
  have sd: "sorted (shiftedDts 0 0 0 ops)" unfolding ops_def by code_simp
  have ev: "emittedDts 0
     (looperRun av_rescale_q durationToTimeBase_model (newDemuxerLooper [(0, tb25), (1, tb1000)]) ops)
       = [0, 1, 2, 3, 4]"
    unfolding ops_def by code_simp
  from looper_restamp [of av_rescale_q durationToTimeBase_model _ ops _ _ 0 _ "[(0, tb25), (1, tb1000)]"]
    k no fn sd
  have "sorted (emittedDts 0
     (looperRun av_rescale_q durationToTimeBase_model (newDemuxerLooper [(0, tb25), (1, tb1000)]) ops))"
    by blast
  with m la k no fn sd ev show ?thesis unfolding ops_def by blast
qed


section \<open>Properties of \<open>Streams\<close>\<close>

lemma storeStreams_keys:
  "distinct (map fst ss) \<Longrightarrow> distinct (map fst (storeStreams b avs ss))"
  by (induction avs arbitrary: ss) (auto simp: distinct_update)

lemma set_update_subset: "set (AList.update k v al) \<subseteq> insert (k, v) (set al)"
  by (induction al) auto

lemma storeStreams_index:
  "(\<forall>(k, d) \<in> set ss. av_Index (ds_s d) = k) \<Longrightarrow>
   (\<forall>(k, d) \<in> set (storeStreams b avs ss). av_Index (ds_s d) = k)"
proof (induction avs arbitrary: ss)
  case Nil
  then show ?case by simp
next
  case (Cons s rest)
  have "\<forall>(k, d) \<in> set (AList.update (av_Index s) (newDemuxerStream b s) ss). av_Index (ds_s d) = k"
    using Cons.prems set_update_subset [of "av_Index s" "newDemuxerStream b s" ss]
    by (auto simp: newDemuxerStream_def)
  from Cons.IH [OF this] show ?case by simp
qed

lemma streamsOf_present:
  "set idxs \<subseteq> fst ` set ss \<Longrightarrow>
   streamsOf ss idxs = Inr (map (\<lambda>idx. stream (the (map_of ss idx))) idxs)"
proof (induction idxs)
  case Nil
  show ?case by simp
next
  case (Cons idx idxs)
  from Cons.prems have "idx \<in> fst ` set ss" by simp
  then have "map_of ss idx \<noteq> None" by (simp add: map_of_eq_None_iff)
  then obtain d where "map_of ss idx = Some d" by blast
  with Cons show ?case by simp
qed

lemma map_of_perm:
  "distinct (map fst ss) \<Longrightarrow> mset ss' = mset ss \<Longrightarrow> map_of ss' = map_of ss"
  by (metis distinct_map map_of_inject_set mset_eq_setD mset_eq_imp_distinct_iff)

lemma Streams_value:
  assumes "distinct (map fst ss)"
  shows "Streams ss = Inr (map (\<lambda>idx. stream (the (map_of ss idx))) (sort (map fst ss)))"
  unfolding Streams_def Let_def by (rule streamsOf_present) simp

lemma stream_index_lookup:
  assumes "distinct (map fst ss)" and "\<forall>(k, d) \<in> set ss. av_Index (ds_s d) = k"
    and "idx \<in> fst ` set ss"
  shows "Stream_Index (stream (the (map_of ss idx))) = idx"
proof -
  from assms(3) have "map_of ss idx \<noteq> None" by (simp add: map_of_eq_None_iff)
  then obtain d where d: "map_of ss idx = Some d" by blast
  then have "(idx, d) \<in> set ss" by (rule map_of_SomeD)
  with assms(2) have "av_Index (ds_s d) = idx" by auto
  with d show ?thesis by (simp add: stream_def)
qed

text \<open>
  C10. Whatever the order \<open>ss\<close> in which the entries of the stream table built by
  \<open>NewDemuxer\<close> are visited, \<open>Streams\<close> returns without a panic, one \<open>Stream\<close>
  per entry, with strictly ascending stream indexes, and the same list as for any other
  order of visit.
\<close>

theorem Streams_ascending:
  assumes "mset ss = mset (storeStreams b avs [])"
  shows "\<exists>out. Streams ss = Inr out \<and>
           length out = length ss \<and>
           map Stream_Index out = sort (map fst ss) \<and>
           sorted_wrt (<) (map Stream_Index out) \<and>
           set out = (stream \<circ> snd) ` set ss \<and>
           Streams (storeStreams b avs []) = Inr out"
proof -
  let ?ss0 = "storeStreams b avs []"
  have d0: "distinct (map fst ?ss0)" by (rule storeStreams_keys) simp
  have i0: "\<forall>(k, d) \<in> set ?ss0. av_Index (ds_s d) = k" by (rule storeStreams_index) simp
  have keys: "mset (map fst ss) = mset (map fst ?ss0)" using assms by (metis mset_map)
  then have d: "distinct (map fst ss)" using d0 by (metis mset_eq_imp_distinct_iff)
  have s: "set ss = set ?ss0" using assms by (rule mset_eq_setD)
  have i: "\<forall>(k, d) \<in> set ss. av_Index (ds_s d) = k" using i0 s by simp
  have m: "map_of ss = map_of ?ss0" using d0 assms by (rule map_of_perm)
  have srt: "sort (map fst ss) = sort (map fst ?ss0)"
    using keys by (metis properties_for_sort sorted_sort mset_sort)
  define out where "out = map (\<lambda>idx. stream (the (map_of ss idx))) (sort (map fst ss))"
  have v: "Streams ss = Inr out" unfolding out_def using d by (rule Streams_value)
  have v0: "Streams ?ss0 = Inr out" unfolding out_def m srt using d0 by (rule Streams_value)
  have len: "length out = length ss" by (simp add: out_def)
  have idx: "map Stream_Index out = sort (map fst ss)"
  proof -
    have "map (Stream_Index \<circ> (\<lambda>idx. stream (the (map_of ss idx)))) (sort (map fst ss)) =
          map (\<lambda>idx. idx) (sort (map fst ss))"
      by (rule map_cong [OF refl]) (use stream_index_lookup [OF d i] in simp)
    then show ?thesis by (simp add: out_def)
  qed
  have "distinct (sort (map fst ss))" using d by simp
  then have asc: "sorted_wrt (<) (map Stream_Index out)"
    unfolding idx by (simp add: strict_sorted_iff)
  have "set out = (\<lambda>idx. stream (the (map_of ss idx))) ` fst ` set ss"
    by (simp add: out_def)
  also have "\<dots> = (stream \<circ> snd) ` set ss"
    using d by (force simp: image_iff)
  finally have st: "set out = (stream \<circ> snd) ` set ss" .
  from v v0 len idx asc st show ?thesis by blast
qed

theorem Streams_ascending_witness:
  "mset (rev (storeStreams 0 [av0, av1] [])) = mset (storeStreams 0 [av0, av1] []) \<and>
   (\<exists>out. Streams (rev (storeStreams 0 [av0, av1] [])) = Inr out \<and>
      map Stream_Index out = [0, 1] \<and> Streams (storeStreams 0 [av0, av1] []) = Inr out)"
proof -
  have m: "mset (rev (storeStreams 0 [av0, av1] [])) = mset (storeStreams 0 [av0, av1] [])"
    by simp
  have k: "sort (map fst (rev (storeStreams 0 [av0, av1] []))) = [0, 1]"
    by (simp add: av0_def av1_def)
  from Streams_ascending [OF m] k m show ?thesis by auto
qed


section \<open>Properties of \<open>readFrame\<close> and of the rate emulator\<close>

text \<open>
  C6. When \<open>ReadFrame\<close> returns an error: with the loop flag set and the error EOF,
  \<open>looping()\<close> runs, the demuxer seeks to the start, and it stops, with an error
  event, exactly when the seek fails. Otherwise \<open>eof()\<close> is called on every stream's
  emulator when the rate is emulated and the error is EOF; a custom handler that claims
  the error decides \<open>stop\<close> and nothing is emitted; under default handling an error
  event is emitted exactly when the error is not EOF, and the loop stops. Nothing is
  dispatched, and the packet taken from the pool goes back to it.
\<close>

theorem readFrame_error_handling:
  assumes "rf_ReadFrame env = Inl err"
    and "readFrame rescaleQ durationToTimeBase h env d = (d', stop)"
  shows
    "(if 0 < unat (loop d) \<and> is_eof err then
        d_l d' = looping rescaleQ durationToTimeBase (rf_flush env) (d_l d) \<and>
        formatContext d' = formatContext d @ [CallReadFrame, CallSeekFrame (- 1) True] \<and>
        d_ss d' = d_ss d \<and>
        stop = (rf_SeekFrame env \<noteq> None) \<and>
        d_eh d' = d_eh d @
          (case rf_SeekFrame env of None \<Rightarrow> [] | Some e \<Rightarrow> [EventError e ''seeking to frame''])
      else
        d_l d' = d_l d \<and>
        formatContext d' = formatContext d @ [CallReadFrame] \<and>
        d_ss d' =
          (if emulateRate d \<and> is_eof err
           then map (\<lambda>(idx, s). (idx, s\<lparr>ds_e := (ds_e s)\<lparr>e_c := e_c (ds_e s) @ [StopTask]\<rparr>\<rparr>)) (d_ss d)
           else d_ss d) \<and>
        (case h of
           Some f \<Rightarrow>
             if snd (f err) then stop = fst (f err) \<and> d_eh d' = d_eh d
             else stop \<and> d_eh d' = d_eh d @ (if is_eof err then [] else [EventError err ''reading frame''])
         | None \<Rightarrow>
             stop \<and> d_eh d' = d_eh d @ (if is_eof err then [] else [EventError err ''reading frame'']))) \<and>
     d_d d' = d_d d \<and> d_sleeps d' = d_sleeps d \<and>
     pkt_gets (d_p d') = pkt_gets (d_p d) + 1 \<and> pkt_puts (d_p d') = pkt_puts (d_p d) + 1"
  using assms
  by (auto simp: readFrame_def readFrameError_def customHandled_def emitError_def
      rateEmulator_eof_def pktPool_get_def pktPool_put_def Let_def
      split: option.splits prod.splits if_splits)

theorem readFrame_error_handling_witness:
  "rf_ReadFrame envEofSeekFails = Inl ErrEof \<and>
   (\<exists>d'. readFrame av_rescale_q durationToTimeBase_model None envEofSeekFails demuxer0 = (d', True) \<and>
      d_eh d' = [EventError (ErrOther 5) ''seeking to frame''] \<and>
      formatContext d' = [CallReadFrame, CallSeekFrame (- 1) True])"
proof -
  have e: "rf_ReadFrame envEofSeekFails = Inl ErrEof"
    by (simp add: envEofSeekFails_def)
  obtain d' stop where r:
    "readFrame av_rescale_q durationToTimeBase_model None envEofSeekFails demuxer0 = (d', stop)"
    by (metis surj_pair)
  from readFrame_error_handling [OF e r]
  have "stop \<and> d_eh d' = [EventError (ErrOther 5) ''seeking to frame''] \<and>
        formatContext d' = [CallReadFrame, CallSeekFrame (- 1) True]"
    by (simp add: envEofSeekFails_def demuxer0_def is_eof_def)
  with e r show ?thesis by simp
qed

lemma sint_in_range:
  "- 9223372036854775808 \<le> x \<Longrightarrow> x \<le> 9223372036854775807 \<Longrightarrow> sint (word_of_int x :: int64) = x"
  by (simp add: signed_of_int signed_take_bit_int_eq_self)

lemma time_Sub_in_range:
  "- 9223372036854775808 \<le> t - u \<Longrightarrow> t - u \<le> 9223372036854775807 \<Longrightarrow> time_Sub t u = word_of_int (t - u)"
  by (simp add: time_Sub_def)

lemma excess_word:
  "(word_of_int x :: int64) - b = word_of_int (x - sint b)"
  by simp

lemma rescale_one_tick: "sint (av_rescale_q 1 tb25 nanosecondRational) = 40000000"
  by (simp add: av_rescale_q_def round_div_def tb25_def nanosecondRational_def)

text \<open>
  C5, as the claim states it, fails: for a previous duration that is not positive the
  source adds nothing to the release time, whereas the claim adds the rescaled duration.
  With a previous duration of \<open>-1\<close> tick of 1/25 s the claim's release time is 40 ms
  before \<open>lastAt\<close>; the code's is \<open>lastAt\<close>.
\<close>

theorem rateEmulator_schedule_counterexample:
  "lastAt (fst (rateEmulator_handlePkt av_rescale_q tb25 emulator0 pool0 [] pkt0 (- 1) None
                  3900000000 3900000000))
   \<noteq> time_Add (lastAt emulator0) (av_rescale_q (- 1) tb25 nanosecondRational)"
  by (simp add: rateEmulator_handlePkt_def Let_def gt0_def time_Add_def emulator0_def
      av_rescale_q_def round_div_def tb25_def nanosecondRational_def)

text \<open>
  C5, amended. For every packet whose \<open>Ref\<close> succeeds: the release time is \<open>lastAt\<close>
  (the current instant when \<open>lastAt\<close> is zero), plus the rescaled previous duration
  when that duration is positive and plus nothing otherwise; the packet is queued for
  that time and tracked, and \<open>lastAt\<close> becomes the release time. Where the differences
  fit a \<open>time.Duration\<close>, the caller sleeps exactly when \<open>lastAt - Now\<close> exceeds the
  buffer duration, and for the excess. A buffer duration configured as zero or less is
  one second.
\<close>

theorem rateEmulator_schedule:
  assumes "rateEmulator_handlePkt rescaleQ tb e p eh pkt previousDuration None now1 now2 = (e', p', eh', sleep)"
  shows
    "(let base = (if lastAt e = 0 then now1 else lastAt e);
          pktAt = (if 0 < sint previousDuration
                   then base + sint (rescaleQ previousDuration tb nanosecondRational)
                   else base)
      in lastAt e' = pktAt \<and>
         e_c e' = e_c e @ [Release pkt pktAt] \<and>
         e_ps e' = e_ps e @ [pkt] \<and>
         bufferDuration e' = bufferDuration e \<and>
         eh' = eh \<and>
         (- 9223372036854775808 \<le> pktAt - now2 \<and> pktAt - now2 \<le> 9223372036854775807 \<and>
          - 9223372036854775808 \<le> pktAt - now2 - sint (bufferDuration e) \<and>
          pktAt - now2 - sint (bufferDuration e) \<le> 9223372036854775807 \<longrightarrow>
            sleep = (if sint (bufferDuration e) < pktAt - now2
                     then Some (word_of_int (pktAt - now2 - sint (bufferDuration e)))
                     else None))) \<and>
     bufferDuration (newDemuxerRateEmulator b) = (if sint b \<le> 0 then 1000000000 else b)"
proof -
  define base where "base = (if lastAt e = 0 then now1 else lastAt e)"
  define pktAt where "pktAt = (if 0 < sint previousDuration
                   then base + sint (rescaleQ previousDuration tb nanosecondRational)
                   else base)"
  from assms have e': "e' = e\<lparr>e_ps := e_ps e @ [pkt], e_c := e_c e @ [Release pkt pktAt], lastAt := pktAt\<rparr>"
    and eh': "eh' = eh"
    and sl: "sleep = (if gt0 (time_Sub pktAt now2 - bufferDuration e)
                      then Some (time_Sub pktAt now2 - bufferDuration e) else None)"
    by (auto simp: rateEmulator_handlePkt_def Let_def gt0_def time_Add_def pktAt_def base_def
        split: if_splits)
  have rng: "sleep = (if sint (bufferDuration e) < pktAt - now2
                     then Some (word_of_int (pktAt - now2 - sint (bufferDuration e)))
                     else None)"
    if a: "- 9223372036854775808 \<le> pktAt - now2" "pktAt - now2 \<le> 9223372036854775807"
      and b: "- 9223372036854775808 \<le> pktAt - now2 - sint (bufferDuration e)"
        "pktAt - now2 - sint (bufferDuration e) \<le> 9223372036854775807"
  proof -
    have "time_Sub pktAt now2 - bufferDuration e = word_of_int (pktAt - now2 - sint (bufferDuration e))"
      using a by (simp only: time_Sub_in_range excess_word)
    moreover have "sint (word_of_int (pktAt - now2 - sint (bufferDuration e)) :: int64) =
        pktAt - now2 - sint (bufferDuration e)"
      using b by (rule sint_in_range)
    ultimately show ?thesis using sl by (simp add: gt0_def)
  qed
  have nb: "bufferDuration (newDemuxerRateEmulator b) = (if sint b \<le> 0 then 1000000000 else b)"
    by (simp add: newDemuxerRateEmulator_def Let_def)
  show ?thesis
    unfolding Let_def base_def [symmetric] pktAt_def [symmetric]
    using e' eh' rng nb by simp
qed

theorem rateEmulator_schedule_witness:
  "(\<exists>e' p' eh'.
      rateEmulator_handlePkt av_rescale_q tb25 emulator0 pool0 [] pkt0 1 None 3900000000 3900000000
        = (e', p', eh', Some 140000000) \<and>
      lastAt e' = 5040000000 \<and> e_c e' = [Release pkt0 5040000000])"
proof -
  obtain e' p' eh' sleep where r:
    "rateEmulator_handlePkt av_rescale_q tb25 emulator0 pool0 [] pkt0 1 None 3900000000 3900000000
       = (e', p', eh', sleep)"
    by (metis prod_cases4)
  from rateEmulator_schedule [OF r, of 0]
  have "lastAt e' = 5040000000 \<and> e_c e' = [Release pkt0 5040000000] \<and> sleep = Some 140000000"
    by (simp add: Let_def emulator0_def rescale_one_tick)
  with r show ?thesis by blast
qed


section \<open>Properties of \<open>distribute\<close>\<close>

lemma usefulNodes_spec: "set (usefulNodes ss) = usefulNodesSpec ss"
proof (induction ss rule: usefulNodes.induct)
  case 1
  show ?case by (simp add: usefulNodesSpec_def)
next
  case (2 ss)
  then show ?case by (auto simp: usefulNodesSpec_def)
next
  case (3 s ss)
  then show ?case by (auto simp: usefulNodesSpec_def split: option.splits)
qed

lemma isUseful_image: "isUseful ns n \<longleftrightarrow> n \<in> Some ` set ns"
  by (cases n) (auto simp: isUseful_def)

lemma removeAt_drop:
  "idx < length bf \<Longrightarrow> drop idx (removeAt idx bf) = drop (Suc idx) bf"
  by (simp add: removeAt_def)

lemma removeAt_take:
  "idx < length bf \<Longrightarrow> take idx (removeAt idx bf) = take idx bf"
  by (simp add: removeAt_def)

lemma inSlot_source:
  "inSlot s b \<longleftrightarrow> sle (ptsMin s) (frame_Pts (item_f b)) \<and> slt (frame_Pts (item_f b)) (ptsMax s)"
  by (simp add: inSlot_def sle_def slt_def)

lemma stale_source: "stale s b \<longleftrightarrow> slt (frame_Pts (item_f b)) (ptsMin s)"
  by (simp add: stale_def slt_def)

lemma scanBuffer_spec:
  "idx \<le> length bf \<Longrightarrow>
   scanBuffer ns s idx bf p =
     (let (s', kept, dropped) = scanSpec (set ns) s (drop idx bf)
      in (s', take idx bf @ kept, p\<lparr>frame_puts := frame_puts p @ dropped\<rparr>))"
proof (induction ns s idx bf p rule: scanBuffer.induct)
  case (1 ns s idx bf p)
  show ?case
  proof (cases "idx < length bf")
    case False
    then have "scanBuffer ns s idx bf p = (s, bf, p)"
      by (subst scanBuffer.simps) simp
    with False 1(7) show ?thesis by simp
  next
    case True
    define b where "b = bf ! idx"
    have d: "drop idx bf = b # drop (Suc idx) bf"
      using True by (simp add: Cons_nth_drop_Suc b_def)
    have t: "take (Suc idx) bf = take idx bf @ [b]"
      using True by (simp add: take_Suc_conv_app_nth b_def)
    have l: "idx \<le> length (removeAt idx bf)" "idx + 1 \<le> length bf"
      using True by (simp_all add: removeAt_def)
    note rm = removeAt_drop [OF True] removeAt_take [OF True]
    consider
        (drop_useless) "item_n b \<noteq> slot_n s" "\<not> isUseful ns (item_n b)"
      | (skip_other) "item_n b \<noteq> slot_n s" "\<not> \<not> isUseful ns (item_n b)"
      | (assign) "\<not> item_n b \<noteq> slot_n s" "inSlot s b" "slot_i s = None"
      | (duplicate) "\<not> item_n b \<noteq> slot_n s" "inSlot s b" "slot_i s \<noteq> None"
      | (old) "\<not> item_n b \<noteq> slot_n s" "\<not> inSlot s b" "stale s b"
      | (future) "\<not> item_n b \<noteq> slot_n s" "\<not> inSlot s b" "\<not> stale s b"
      by blast
    then show ?thesis
    proof cases
      case drop_useless
      have "scanBuffer ns s idx bf p =
            scanBuffer ns s idx (removeAt idx bf) (framePool_put p (item_f b))"
        using True drop_useless by (subst scanBuffer.simps) (auto simp: b_def Let_def)
      also note 1(1) [OF True b_def drop_useless l(1)]
      finally show ?thesis
        using drop_useless
        by (simp add: d rm isUseful_image framePool_put_def split: prod.splits)
    next
      case skip_other
      have "scanBuffer ns s idx bf p = scanBuffer ns s (idx + 1) bf p"
        using True skip_other by (subst scanBuffer.simps) (auto simp: b_def Let_def)
      also note 1(2) [OF True b_def skip_other l(2)]
      finally show ?thesis
        using skip_other
        by (simp add: d t isUseful_image split: prod.splits)
    next
      case assign
      note c = assign(2) [unfolded inSlot_source]
      have "scanBuffer ns s idx bf p =
            scanBuffer ns (s\<lparr>slot_i := Some b\<rparr>) idx (removeAt idx bf) p"
        using True assign c by (subst scanBuffer.simps) (auto simp: b_def Let_def)
      also note 1(3) [OF True b_def assign(1) c assign(3) l(1)]
      finally show ?thesis
        using assign
        by (simp add: d rm split: prod.splits)
    next
      case duplicate
      note c = duplicate(2) [unfolded inSlot_source]
      have "scanBuffer ns s idx bf p =
            scanBuffer ns s idx (removeAt idx bf) (framePool_put p (item_f b))"
        using True duplicate c by (subst scanBuffer.simps) (auto simp: b_def Let_def)
      also note 1(4) [OF True b_def duplicate(1) c duplicate(3) l(1)]
      finally show ?thesis
        using duplicate
        by (simp add: d rm framePool_put_def split: prod.splits)
    next
      case old
      note c = old(2) [unfolded inSlot_source] and c' = old(3) [unfolded stale_source]
      have "scanBuffer ns s idx bf p =
            scanBuffer ns s idx (removeAt idx bf) (framePool_put p (item_f b))"
        using True old c c' by (subst scanBuffer.simps) (auto simp: b_def Let_def)
      also note 1(5) [OF True b_def old(1) c c' l(1)]
      finally show ?thesis
        using old
        by (simp add: d rm framePool_put_def split: prod.splits)
    next
      case future
      note c = future(2) [unfolded inSlot_source] and c' = future(3) [unfolded stale_source]
      have "scanBuffer ns s idx bf p = scanBuffer ns s (idx + 1) bf p"
        using True future c c' by (subst scanBuffer.simps) (auto simp: b_def Let_def)
      also note 1(6) [OF True b_def future(1) c c' l(2)]
      finally show ?thesis
        using future
        by (simp add: d t split: prod.splits)
    qed
  qed
qed

lemma distributeSlots_spec:
  "distributeSlots ns ss bf p =
     (let (ss', bf', dropped) = distributeSlotsSpec (set ns) ss bf
      in (ss', bf', p\<lparr>frame_puts := frame_puts p @ dropped\<rparr>))"
proof (induction ns ss bf p rule: distributeSlots.induct)
  case (1 ns bf p)
  show ?case by simp
next
  case (2 ns ss bf p)
  then show ?case by (simp split: prod.splits)
next
  case (3 ns s ss bf p)
  show ?case
  proof (cases "slot_i s = None")
    case False
    with 3(1) show ?thesis by (simp split: prod.splits)
  next
    case True
    obtain s1 bf1 p1 where sb: "scanBuffer ns s 0 bf p = (s1, bf1, p1)"
      by (metis prod_cases3)
    obtain s' kept dropped where sp: "scanSpec (set ns) s bf = (s', kept, dropped)"
      by (metis prod_cases3)
    from scanBuffer_spec [of 0 bf ns s p] sb sp
    have eq: "s1 = s'" "bf1 = kept" "p1 = p\<lparr>frame_puts := frame_puts p @ dropped\<rparr>"
      by simp_all
    have ne: "\<not> slot_i s \<noteq> None" using True by simp
    from 3(2) [OF ne sb [symmetric] refl] True sb sp eq
    show ?thesis by (simp split: prod.splits)
  qed
qed

lemma distribute_eq_spec: "distribute r = distributeSpec r"
  using distributeSlots_spec [of "usefulNodes (slots r)" "slots r" "buf r" "r_p r"]
  by (simp add: distribute_def distributeSpec_def Let_def usefulNodes_spec split: prod.splits)

text \<open>
  C3. \<open>distribute\<close>, translated from the source with its index loop over a buffer
  that shrinks in place, does what the specification says of it: only the empty slots
  other than nil scan the buffer, in order; an item of another node that no slot
  references is returned to the pool and removed; an item of the slot's node in
  \<open>[ptsMin, ptsMax)\<close> is assigned if the slot is still empty and returned to the pool
  otherwise; an item of the slot's node before \<open>ptsMin\<close> is returned to the pool and
  removed; any other item stays in the buffer.
\<close>

theorem distribute_refines_spec: "distribute r = distributeSpec r"
  by (rule distribute_eq_spec)

text \<open>
  One call, with a single empty slot \<open>[40, 80)\<close> of node 1 and five buffered items:
  the item of node 2, which no slot references, and the item of node 1 at PTS 10 are
  returned to the pool; the item at PTS 45 is assigned; the item at PTS 50, in range
  too, is returned to the pool; the item at PTS 100 stays in the buffer.
\<close>

lemma distribute_example:
  "slots (distribute enforcerWithBuffer) =
     [Some \<lparr>slot_i = Some (item 1 45), slot_n = Some 1, ptsMax = 80, ptsMin = 40\<rparr>] \<and>
   buf (distribute enforcerWithBuffer) = [item 1 100] \<and>
   frame_puts (r_p (distribute enforcerWithBuffer)) =
     [item_f (item 2 50), item_f (item 1 10), item_f (item 1 50)]"
  by code_simp


section \<open>Properties of the slot window\<close>

lemma scanSpec_geom:
  "scanSpec u s bf = (s', kept, dropped) \<Longrightarrow>
   slot_n s' = slot_n s \<and> ptsMin s' = ptsMin s \<and> ptsMax s' = ptsMax s"
proof (induction bf arbitrary: s s' kept dropped)
  case Nil
  then show ?case by simp
next
  case (Cons b bs)
  show ?case
  proof (cases "item_n b = slot_n s \<and> inSlot s b \<and> slot_i s = None")
    case True
    with Cons.prems have "scanSpec u (s\<lparr>slot_i := Some b\<rparr>) bs = (s', kept, dropped)"
      by simp
    from Cons.IH [OF this] show ?thesis by simp
  next
    case False
    obtain s1 k1 d1 where r: "scanSpec u s bs = (s1, k1, d1)" by (metis prod_cases3)
    with False Cons.prems have "s' = s1" by (auto split: if_splits)
    with Cons.IH [OF r] show ?thesis by simp
  qed
qed

lemma distributeSlotsSpec_geom:
  "distributeSlotsSpec u ss bf = (ss', bf', dropped) \<Longrightarrow> map geom ss' = map geom ss"
proof (induction ss arbitrary: bf ss' bf' dropped)
  case Nil
  then show ?case by simp
next
  case (Cons so ss)
  show ?case
  proof (cases "\<exists>s. so = Some s \<and> slot_i s = None")
    case True
    then obtain s where s: "so = Some s" "slot_i s = None" by blast
    obtain s1 k1 d1 where sc: "scanSpec u s bf = (s1, k1, d1)" by (metis prod_cases3)
    obtain ss2 bf2 d2 where r: "distributeSlotsSpec u ss k1 = (ss2, bf2, d2)" by (metis prod_cases3)
    from Cons.prems s sc r have "ss' = Some s1 # ss2" by simp
    with Cons.IH [OF r] scanSpec_geom [OF sc] s show ?thesis by (simp add: geom_def)
  next
    case False
    obtain ss2 bf2 d2 where r: "distributeSlotsSpec u ss bf = (ss2, bf2, d2)" by (metis prod_cases3)
    from Cons.prems False r have "ss' = so # ss2" by (auto split: option.splits if_splits)
    with Cons.IH [OF r] show ?thesis by simp
  qed
qed

lemma distribute_geom: "map geom (slots (distribute r)) = map geom (slots r)"
proof -
  obtain ss' bf' dropped where
    d: "distributeSlotsSpec (usefulNodesSpec (slots r)) (slots r) (buf r) = (ss', bf', dropped)"
    by (metis prod_cases3)
  then have "slots (distribute r) = ss'"
    by (simp add: distribute_eq_spec distributeSpec_def)
  with distributeSlotsSpec_geom [OF d] show ?thesis by simp
qed

lemma distribute_length: "length (slots (distribute r)) = length (slots r)"
  using distribute_geom [of r] by (metis length_map)

lemma contiguous_Cons2: "contiguous (x # y # ss) = (link x y \<and> contiguous (y # ss))"
  by (cases x; cases y) (simp_all add: link_def)

lemma link_geom: "geom x = geom x' \<Longrightarrow> geom y = geom y' \<Longrightarrow> link x y = link x' y'"
  by (cases x; cases x'; cases y; cases y') (auto simp: geom_def link_def)

lemma contiguous_geom:
  "map geom ss = map geom ss' \<Longrightarrow> contiguous ss = contiguous ss'"
proof (induction ss arbitrary: ss')
  case Nil
  then show ?case by simp
next
  case (Cons x ss)
  from Cons.prems obtain x' ss2 where s: "ss' = x' # ss2"
    and gx: "geom x = geom x'" and g: "map geom ss = map geom ss2"
    by (cases ss') auto
  show ?case
  proof (cases ss)
    case Nil
    with g s show ?thesis by simp
  next
    case (Cons y ss3)
    with g obtain y' ss4 where s2: "ss2 = y' # ss4" and gy: "geom y = geom y'"
      by (cases ss2) auto
    from Cons.IH [OF g] have "contiguous (y # ss3) = contiguous (y' # ss4)"
      using Cons s2 by simp
    with link_geom [OF gx gy] show ?thesis
      unfolding s s2 Cons contiguous_Cons2 by simp
  qed
qed

lemma contiguous_tl: "contiguous ss \<Longrightarrow> contiguous (tl ss)"
  by (induction ss rule: contiguous.induct) simp_all

lemma contiguous_append_next:
  "ss \<noteq> [] \<Longrightarrow> contiguous ss \<Longrightarrow>
   contiguous (ss @ [case last ss of None \<Rightarrow> None | Some prev \<Rightarrow> Some (slot_next prev)])"
proof (induction ss)
  case Nil
  then show ?case by simp
next
  case (Cons x ss)
  show ?case
  proof (cases ss)
    case Nil
    then show ?thesis by (cases x) (simp_all add: slot_next_def)
  next
    case (Cons y ss3)
    with Cons.prems have "link x y" and "contiguous (y # ss3)"
      by (simp_all add: contiguous_Cons2)
    with Cons.IH Cons show ?thesis
      by (simp add: contiguous_Cons2)
  qed
qed

lemma current_total:
  assumes "slots r \<noteq> []"
  shows "\<exists>r2 i filled. current r ref = Inr (r2, i, filled) \<and> slots r2 = slots r \<and>
           slotsCount r2 = slotsCount r \<and> (\<not> filled \<longrightarrow> i \<noteq> None)"
proof -
  from assms obtain s0 rest where s: "slots r = s0 # rest" by (cases "slots r") auto
  show ?thesis
    using s
    by (auto simp: current_def Let_def split: option.splits prod.splits)
qed

lemma dispatchItem_slots:
  "dispatchItem r tv i filled = (r', tv', f) \<Longrightarrow> slots r' = slots r"
  by (auto simp: dispatchItem_def Let_def split: option.splits if_splits)

lemma addNextSlot_slots:
  "slots (addNextSlot r) =
     slots r @ [case last (slots r) of None \<Rightarrow> None | Some prev \<Rightarrow> Some (slot_next prev)]"
  by (simp add: addNextSlot_def)

lemma tickFunc_slots:
  assumes "slots r \<noteq> []"
  shows "\<exists>r' tv' stp report. tickFunc r tv ctxErr ref = Inr (r', tv', stp, report) \<and>
           slots r' =
             (if ctxErr then slots r
              else if length (slots r) < slotsCount r then appendNext (slots r)
              else tl (appendNext (slots (distribute r))))"
proof (cases "ctxErr \<or> length (slots r) < slotsCount r")
  case True
  then show ?thesis
    using assms by (auto simp: tickFunc_def Let_def addNextSlot_slots appendNext_def)
next
  case False
  let ?r1 = "distribute r"
  have ne: "slots ?r1 \<noteq> []" using assms distribute_length [of r] by (metis length_0_conv)
  from current_total [OF ne, of ref] obtain r2 i filled where
    c: "current ?r1 ref = Inr (r2, i, filled)" and s2: "slots r2 = slots ?r1"
    and nf: "\<not> filled \<longrightarrow> i \<noteq> None"
    by blast
  show ?thesis
  proof (cases i)
    case None
    with nf have filled by simp
    with None c s2 False assms show ?thesis
      by (auto simp: tickFunc_def Let_def addNextSlot_slots appendNext_def)
  next
    case (Some it)
    obtain r3 tv2 f where d: "dispatchItem r2 (tv\<lparr>nextAt := time_Add (nextAt tv) (period r)\<rparr>) it filled = (r3, tv2, f)"
      by (metis prod_cases3)
    from dispatchItem_slots [OF d] s2 have s3: "slots r3 = slots ?r1" by simp
    from Some c d s3 False assms show ?thesis
      by (auto simp: tickFunc_def Let_def addNextSlot_slots appendNext_def)
  qed
qed

lemma appendNext_contiguous: "ss \<noteq> [] \<Longrightarrow> contiguous ss \<Longrightarrow> contiguous (appendNext ss)"
  unfolding appendNext_def by (rule contiguous_append_next)

lemma distribute_contiguous: "contiguous (slots (distribute r)) = contiguous (slots r)"
  by (rule contiguous_geom) (rule distribute_geom)

lemma last_geom: "map geom ss = map geom ss' \<Longrightarrow> ss \<noteq> [] \<Longrightarrow> geom (last ss) = geom (last ss')"
  by (metis last_map map_is_Nil_conv)

lemma next_geom: "geom x = geom y \<Longrightarrow>
  (case x of None \<Rightarrow> None | Some prev \<Rightarrow> Some (slot_next prev)) =
  (case y of None \<Rightarrow> None | Some prev \<Rightarrow> Some (slot_next prev))"
  by (cases x; cases y) (auto simp: geom_def slot_next_def)

lemma tick_slot_window:
  assumes "slots r \<noteq> []"
  shows "\<exists>r' tv' stp report. tickFunc r tv ctxErr ref = Inr (r', tv', stp, report) \<and>
           slots r' \<noteq> [] \<and>
           length (slots r') =
             (if \<not> ctxErr \<and> length (slots r) < slotsCount r then length (slots r) + 1
              else length (slots r)) \<and>
           (contiguous (slots r) \<longrightarrow> contiguous (slots r')) \<and>
           (\<not> ctxErr \<longrightarrow>
              last (slots r') =
                (case last (slots r) of None \<Rightarrow> None | Some prev \<Rightarrow> Some (slot_next prev)))"
proof -
  from tickFunc_slots [OF assms, of tv ctxErr ref] obtain r' tv' stp report where
    t: "tickFunc r tv ctxErr ref = Inr (r', tv', stp, report)"
    and s: "slots r' =
             (if ctxErr then slots r
              else if length (slots r) < slotsCount r then appendNext (slots r)
              else tl (appendNext (slots (distribute r))))"
    by blast
  have ne1: "slots (distribute r) \<noteq> []"
    using assms distribute_length [of r] by (metis length_0_conv)
  have len: "length (slots r') =
             (if \<not> ctxErr \<and> length (slots r) < slotsCount r then length (slots r) + 1
              else length (slots r))"
    using s assms by (simp add: appendNext_def distribute_length)
  then have ne: "slots r' \<noteq> []" using assms by (auto split: if_splits)
  have cont: "contiguous (slots r')" if "contiguous (slots r)"
    using s that assms ne1
    by (auto simp: appendNext_contiguous contiguous_tl distribute_contiguous)
  have lst: "last (slots r') =
                (case last (slots r) of None \<Rightarrow> None | Some prev \<Rightarrow> Some (slot_next prev))"
    if "\<not> ctxErr"
  proof -
    have g: "geom (last (slots (distribute r))) = geom (last (slots r))"
      using distribute_geom [of r] ne1 by (rule last_geom)
    have "last (slots r') = (case last (slots (distribute r)) of None \<Rightarrow> None | Some prev \<Rightarrow> Some (slot_next prev))
        \<or> last (slots r') = (case last (slots r) of None \<Rightarrow> None | Some prev \<Rightarrow> Some (slot_next prev))"
      using s that ne1 assms by (auto simp: appendNext_def last_tl)
    with next_geom [OF g] show ?thesis by auto
  qed
  from t ne len cont lst show ?thesis by blast
qed

lemma HandleFrame_slots: "slots (HandleFrame rescaleQ r p ref) = slots r"
  by (simp add: HandleFrame_def Let_def split: option.splits)

lemma handleFrameTask_total:
  assumes "slots r \<noteq> []"
  shows "\<exists>r'. handleFrameTask rescaleQ r f p ref = Inr r' \<and> length (slots r') = length (slots r)"
  using assms
  by (auto simp: handleFrameTask_def Let_def split: option.splits)

lemma runOp_total:
  assumes "slots r \<noteq> []"
  shows "\<exists>r' tv' reports'. runOp rescaleQ (r, tv, reports) op = Inr (r', tv', reports') \<and> slots r' \<noteq> []"
proof (cases op)
  case (OpSwitch n)
  with assms show ?thesis by (simp add: Switch_def)
next
  case (OpHandleFrame p ref)
  with assms show ?thesis by (simp add: HandleFrame_slots)
next
  case (OpRunTask ref)
  show ?thesis
  proof (cases "r_c r")
    case Nil
    with OpRunTask assms show ?thesis by simp
  next
    case (Cons a rest)
    obtain f p where a: "a = (f, p)" by (cases a)
    have "slots (r\<lparr>r_c := rest\<rparr>) \<noteq> []" using assms by simp
    from handleFrameTask_total [OF this, of rescaleQ f p ref]
    obtain r' where "handleFrameTask rescaleQ (r\<lparr>r_c := rest\<rparr>) f p ref = Inr r'"
      and "length (slots r') = length (slots r)" by auto
    with OpRunTask Cons a assms show ?thesis by auto
  qed
next
  case (OpTick ctxErr ref)
  from tick_slot_window [OF assms, of tv ctxErr ref]
  obtain r' tv' stp report where "tickFunc r tv ctxErr ref = Inr (r', tv', stp, report)"
    and "slots r' \<noteq> []" by blast
  with OpTick show ?thesis by simp
qed

lemma run_total:
  assumes "slots r \<noteq> []"
  shows "\<exists>r' tv' reports'. run rescaleQ (r, tv, reports) ops = Inr (r', tv', reports') \<and> slots r' \<noteq> []"
  using assms
proof (induction ops arbitrary: r tv reports)
  case Nil
  then show ?case by simp
next
  case (Cons op ops)
  from runOp_total [OF Cons.prems, of rescaleQ tv reports op]
  obtain r1 tv1 reports1 where s: "runOp rescaleQ (r, tv, reports) op = Inr (r1, tv1, reports1)"
    and ne: "slots r1 \<noteq> []" by blast
  from Cons.IH [OF ne, of tv1 reports1] s show ?case by simp
qed

text \<open>
  C2, amended. From any state whose window holds a slot, as the state at creation does,
  no step of the rate enforcer panics and the window holds at least one slot after
  every step, ticks included. A tick that is not cancelled appends the \<open>next()\<close> of
  the previous tail (nil after nil) and removes the first slot only once the window has
  \<open>slotsCount\<close> slots; it keeps a contiguous window contiguous. \<open>next()\<close> starts
  where its slot ends, keeps the node and preserves the width \<open>ptsMax - ptsMin\<close>.
  (The window as a whole need not be contiguous: \<open>HandleFrame\<close> may replace the tail
  slot by one anchored at the incoming frame.)
\<close>

theorem slot_window_after_tick:
  assumes "slots r \<noteq> []"
  shows
    "(\<exists>r' tv' reports'. run rescaleQ (r, tv, reports) ops = Inr (r', tv', reports') \<and> slots r' \<noteq> []) \<and>
     (\<exists>r' tv' stp report. tickFunc r tv ctxErr ref = Inr (r', tv', stp, report) \<and>
        slots r' \<noteq> [] \<and>
        length (slots r') =
          (if \<not> ctxErr \<and> length (slots r) < slotsCount r then length (slots r) + 1
           else length (slots r)) \<and>
        (contiguous (slots r) \<longrightarrow> contiguous (slots r')) \<and>
        (\<not> ctxErr \<longrightarrow>
           last (slots r') =
             (case last (slots r) of None \<Rightarrow> None | Some prev \<Rightarrow> Some (slot_next prev)))) \<and>
     ptsMin (slot_next s) = ptsMax s \<and>
     ptsMax (slot_next s) - ptsMin (slot_next s) = ptsMax s - ptsMin s \<and>
     slot_n (slot_next s) = slot_n s \<and>
     slots (NewRateEnforcer opts) = [None]"
  using run_total [OF assms, of rescaleQ tv reports ops] tick_slot_window [OF assms, of tv ctxErr ref]
  by (simp add: slot_next_def NewRateEnforcer_def)

text \<open>
  C2, as the claim states it, fails: the window is not contiguous after every tick. With
  three slots, a frame of node 1 at PTS 0 opens the window, two ticks fill it, the
  source is switched to node 2, whose first frame at PTS 1000 replaces the tail slot,
  and after the next tick the window is \<open>[40, 80)\<close>, \<open>[1000, 1040)\<close>,
  \<open>[1040, 1080)\<close>.
\<close>

theorem slot_window_counterexample:
  "(case run av_rescale_q (NewRateEnforcer (options0 3), tickVars0, [])
          [OpSwitch (Some 1), OpHandleFrame (payload 1 0) None, OpRunTask None,
           OpTick False None, OpTick False None,
           OpSwitch (Some 2), OpHandleFrame (payload 2 1000) None, OpRunTask None,
           OpTick False None] of
      Inr (r, tv, reports) \<Rightarrow> \<not> contiguous (slots r)
    | Inl e \<Rightarrow> False)"
  by code_simp

theorem slot_window_after_tick_witness:
  "slots (NewRateEnforcer (options0 3)) \<noteq> [] \<and>
   (\<exists>r' tv' stp report.
      tickFunc (NewRateEnforcer (options0 3)) tickVars0 False None = Inr (r', tv', stp, report) \<and>
      slots r' = [None, None])"
proof -
  have ne: "slots (NewRateEnforcer (options0 3)) \<noteq> []"
    by (simp add: NewRateEnforcer_def)
  from slot_window_after_tick [OF ne, of undefined tickVars0 "[]" "[]" False None undefined "options0 3"]
  obtain r' tv' stp report where
    t: "tickFunc (NewRateEnforcer (options0 3)) tickVars0 False None = Inr (r', tv', stp, report)"
    and l: "length (slots r') =
          (if \<not> False \<and> length (slots (NewRateEnforcer (options0 3))) < slotsCount (NewRateEnforcer (options0 3))
           then length (slots (NewRateEnforcer (options0 3))) + 1
           else length (slots (NewRateEnforcer (options0 3))))"
    and lst: "last (slots r') =
             (case last (slots (NewRateEnforcer (options0 3))) of None \<Rightarrow> None | Some prev \<Rightarrow> Some (slot_next prev))"
    by auto
  have "length (slots r') = 2" and "last (slots r') = None"
    using l lst by (simp_all add: NewRateEnforcer_def options0_def)
  moreover have "slots r' = [None, None]"
    using t by (auto simp: tickFunc_def NewRateEnforcer_def options0_def Let_def addNextSlot_def)
  ultimately show ?thesis using ne t by blast
qed


section \<open>Properties of the ticks\<close>

lemma distribute_fields:
  "r_d (distribute r) = r_d r" "r_f (distribute r) = r_f r" "r_eh (distribute r) = r_eh r"
  "restamper (distribute r) = restamper r" "statFilledRate (distribute r) = statFilledRate r"
  "slotsCount (distribute r) = slotsCount r"
  by (simp_all add: distribute_def Let_def split: prod.splits)

lemma dispatchItem_fields:
  assumes "dispatchItem r tv i filled = (r', tv', f)"
  shows "f = restamped r (item_f i)" "r_d r' = r_d r @ [f]" "statFilledRate r' = statFilledRate r"
    "r_p r' = r_p r" "\<not> filled \<Longrightarrow> r_f r' = r_f r"
  using assms
  by (auto simp: dispatchItem_def restamped_def Let_def split: option.splits if_splits)

lemma tick_past_warmup:
  assumes "\<not> ctxErr" and "slots r \<noteq> []" and "slotsCount r \<le> length (slots r)"
  shows
    "\<exists>r' tv' i filled.
       tickFunc r tv ctxErr ref = Inr (r', tv', False, Some (i, filled)) \<and>
       (case headItem (slots (distribute r)) of
          Some it \<Rightarrow>
            i = Some it \<and> \<not> filled \<and>
            r_d r' = r_d r @ [restamped r (item_f it)] \<and>
            statFilledRate r' = statFilledRate r \<and>
            r_f r' = fst (NoFill (r_f r) (r_p (distribute r)) (r_eh r) (item_f it) (item_n it) ref) \<and>
            frame_puts (r_p r') =
              frame_puts (fst (snd (NoFill (r_f r) (r_p (distribute r)) (r_eh r) (item_f it) (item_n it) ref)))
                @ [restamped r (item_f it)]
        | None \<Rightarrow>
            filled \<and> statFilledRate r' = statFilledRate r + 1 \<and>
            r_p r' = r_p (distribute r) \<and>
            (case Fill (r_f r) of
               (Some f, n) \<Rightarrow> i = Some (newRateEnforcerItem f n) \<and> r_d r' = r_d r @ [restamped r f]
             | (None, n) \<Rightarrow> i = None \<and> r_d r' = r_d r))"
proof -
  let ?r1 = "distribute r"
  let ?tv1 = "tv\<lparr>nextAt := time_Add (nextAt tv) (period r)\<rparr>"
  have ne: "slots ?r1 \<noteq> []" using assms(2) distribute_length [of r] by (metis length_0_conv)
  then obtain s0 rest where s: "slots ?r1 = s0 # rest" by (cases "slots ?r1") auto
  have w: "\<not> length (slots r) < slotsCount r" using assms(3) by simp
  show ?thesis
  proof (cases "headItem (slots ?r1)")
    case None
    then have h: "(case s0 of None \<Rightarrow> None | Some s \<Rightarrow> slot_i s) = None"
      using s by (simp add: headItem_def split: option.splits)
    show ?thesis
    proof (cases "Fill (r_f r)")
      case (Pair fo n)
      show ?thesis
      proof (cases fo)
        case None
        with Pair h s have c: "current ?r1 ref = Inr (?r1, None, True)"
          by (simp add: current_def distribute_fields)
        show ?thesis
          using assms(1,2) w c \<open>headItem (slots ?r1) = None\<close> Pair None
          by (auto simp: tickFunc_def Let_def distribute_fields addNextSlot_def)
      next
        case (Some f)
        with Pair h s have c: "current ?r1 ref = Inr (?r1, Some (newRateEnforcerItem f n), True)"
          by (simp add: current_def distribute_fields)
        obtain r3 tv2 f' where d: "dispatchItem ?r1 ?tv1 (newRateEnforcerItem f n) True = (r3, tv2, f')"
          by (metis prod_cases3)
        note df = dispatchItem_fields(1-4) [OF d]
        show ?thesis
          using assms(1,2) w c d df \<open>headItem (slots ?r1) = None\<close> Pair Some
          by (auto simp: tickFunc_def Let_def distribute_fields restamped_def newRateEnforcerItem_def addNextSlot_def)
      qed
    qed
  next
    case (Some it)
    then have h: "(case s0 of None \<Rightarrow> None | Some s \<Rightarrow> slot_i s) = Some it"
      using s by (simp add: headItem_def split: option.splits)
    obtain fl p' eh' where nf: "NoFill (r_f r) (r_p ?r1) (r_eh r) (item_f it) (item_n it) ref = (fl, p', eh')"
      by (metis prod_cases3)
    let ?r2 = "?r1\<lparr>r_f := fl, r_p := p', r_eh := eh'\<rparr>"
    from h s nf have c: "current ?r1 ref = Inr (?r2, Some it, False)"
      by (simp add: current_def distribute_fields)
    obtain r3 tv2 f' where d: "dispatchItem ?r2 ?tv1 it False = (r3, tv2, f')"
      by (metis prod_cases3)
    note df = dispatchItem_fields [OF d]
    show ?thesis
      using assms(1,2) w c d df Some nf
      by (auto simp: tickFunc_def Let_def distribute_fields restamped_def framePool_put_def addNextSlot_def)
  qed
qed


lemma counts_snoc:
  "filledCount (rp @ [x]) = filledCount rp + (if isFilled x then 1 else 0)"
  "nodeSourcedCount (rp @ [x]) = nodeSourcedCount rp + (if isNodeSourced x then 1 else 0)"
  "dispatchCount (rp @ [x]) = dispatchCount rp + (if isDispatch x then 1 else 0)"
  by (simp_all add: filledCount_def nodeSourcedCount_def dispatchCount_def)

lemma tickFunc_accounting:
  assumes "tickFunc r tv ctxErr ref = Inr (r', tv', stp, report)" and "slots r \<noteq> []"
  shows "(if isFilled report then 1 else 0) + (if isNodeSourced report then 1 else 0) =
           (if pastWarmup r (OpTick ctxErr ref) then 1 else (0::nat))"
    and "statFilledRate r' = statFilledRate r + (if isFilled report then 1 else 0)"
    and "length (r_d r') = length (r_d r) + (if isDispatch report then 1 else 0)"
proof -
  have "((if isFilled report then 1 else 0) + (if isNodeSourced report then 1 else 0) =
           (if pastWarmup r (OpTick ctxErr ref) then 1 else (0::nat))) \<and>
        statFilledRate r' = statFilledRate r + (if isFilled report then 1 else 0) \<and>
        length (r_d r') = length (r_d r) + (if isDispatch report then 1 else 0)"
  proof (cases "\<not> ctxErr \<and> slotsCount r \<le> length (slots r)")
    case False
    have "report = None \<and> statFilledRate r' = statFilledRate r \<and> r_d r' = r_d r"
    proof (cases ctxErr)
      case True
      with assms(1) show ?thesis by (simp add: tickFunc_def Let_def)
    next
      case nc: False
      with False have "length (slots r) < slotsCount r" by simp
      with nc assms show ?thesis by (auto simp: tickFunc_def Let_def addNextSlot_def)
    qed
    with False show ?thesis by auto
  next
    case True
    from tick_past_warmup [OF conjunct1 [OF True] assms(2) conjunct2 [OF True], of tv ref]
    obtain r2 tv2 i filled where
      t: "tickFunc r tv ctxErr ref = Inr (r2, tv2, False, Some (i, filled))"
      and c: "(case headItem (slots (distribute r)) of
          Some it \<Rightarrow>
            i = Some it \<and> \<not> filled \<and>
            r_d r2 = r_d r @ [restamped r (item_f it)] \<and>
            statFilledRate r2 = statFilledRate r
        | None \<Rightarrow>
            filled \<and> statFilledRate r2 = statFilledRate r + 1 \<and>
            (case Fill (r_f r) of
               (Some f, n) \<Rightarrow> i = Some (newRateEnforcerItem f n) \<and> r_d r2 = r_d r @ [restamped r f]
             | (None, n) \<Rightarrow> i = None \<and> r_d r2 = r_d r))"
      by (auto split: option.splits prod.splits)
    from t assms(1) have e: "r' = r2" "report = Some (i, filled)" by simp_all
    from c True show ?thesis
      unfolding e by (auto split: option.splits prod.splits)
  qed
  then show "(if isFilled report then 1 else 0) + (if isNodeSourced report then 1 else 0) =
           (if pastWarmup r (OpTick ctxErr ref) then 1 else (0::nat))"
    and "statFilledRate r' = statFilledRate r + (if isFilled report then 1 else 0)"
    and "length (r_d r') = length (r_d r) + (if isDispatch report then 1 else 0)"
    by simp_all
qed

lemma handleFrameTask_fields:
  assumes "handleFrameTask rescaleQ r f p ref = Inr r'"
  shows "statFilledRate r' = statFilledRate r" "r_d r' = r_d r"
  using assms
  by (auto simp: handleFrameTask_def Let_def split: option.splits if_splits)

lemma HandleFrame_fields:
  "statFilledRate (HandleFrame rescaleQ r p ref) = statFilledRate r"
  "r_d (HandleFrame rescaleQ r p ref) = r_d r"
  by (simp_all add: HandleFrame_def Let_def split: option.splits)

lemma runOp_accounting:
  assumes "runOp rescaleQ (r, tv, rp) op = Inr (r', tv', rp')" and "slots r \<noteq> []"
  shows "filledCount rp' + nodeSourcedCount rp' =
           filledCount rp + nodeSourcedCount rp + (if pastWarmup r op then 1 else 0)"
    and "statFilledRate r' + filledCount rp = statFilledRate r + filledCount rp'"
    and "length (r_d r') + dispatchCount rp = length (r_d r) + dispatchCount rp'"
proof -
  have "filledCount rp' + nodeSourcedCount rp' =
           filledCount rp + nodeSourcedCount rp + (if pastWarmup r op then 1 else 0) \<and>
        statFilledRate r' + filledCount rp = statFilledRate r + filledCount rp' \<and>
        length (r_d r') + dispatchCount rp = length (r_d r) + dispatchCount rp'"
  proof (cases op)
    case (OpSwitch n)
    with assms show ?thesis by (auto simp: Switch_def)
  next
    case (OpHandleFrame p ref)
    with assms show ?thesis by (auto simp: HandleFrame_fields)
  next
    case (OpRunTask ref)
    with assms show ?thesis
      by (auto simp: handleFrameTask_fields split: list.splits sum.splits)
  next
    case (OpTick ctxErr ref)
    with assms(1) obtain stp report where
      t: "tickFunc r tv ctxErr ref = Inr (r', tv', stp, report)" and rp': "rp' = rp @ [report]"
      by (auto split: sum.splits)
    from tickFunc_accounting [OF t assms(2)] show ?thesis
      unfolding rp' counts_snoc OpTick by simp
  qed
  then show "filledCount rp' + nodeSourcedCount rp' =
           filledCount rp + nodeSourcedCount rp + (if pastWarmup r op then 1 else 0)"
    and "statFilledRate r' + filledCount rp = statFilledRate r + filledCount rp'"
    and "length (r_d r') + dispatchCount rp = length (r_d r) + dispatchCount rp'"
    by simp_all
qed

lemma run_accounting:
  assumes "run rescaleQ (r, tv, rp) ops = Inr (r', tv', rp')" and "slots r \<noteq> []"
  shows "filledCount rp' + nodeSourcedCount rp' =
           filledCount rp + nodeSourcedCount rp + ticksPastWarmup rescaleQ (r, tv, rp) ops \<and>
         statFilledRate r' + filledCount rp = statFilledRate r + filledCount rp' \<and>
         length (r_d r') + dispatchCount rp = length (r_d r) + dispatchCount rp'"
  using assms
proof (induction ops arbitrary: r tv rp)
  case Nil
  then show ?case by simp
next
  case (Cons op ops)
  from runOp_total [OF Cons.prems(2), of rescaleQ tv rp op]
  obtain r1 tv1 rp1 where s: "runOp rescaleQ (r, tv, rp) op = Inr (r1, tv1, rp1)"
    and ne: "slots r1 \<noteq> []" by blast
  from Cons.prems(1) s have r: "run rescaleQ (r1, tv1, rp1) ops = Inr (r', tv', rp')" by simp
  note IH = Cons.IH [OF r ne]
  note st = runOp_accounting [OF s Cons.prems(2)]
  from IH st s show ?case by simp
qed


lemma dispatchCount_le: "dispatchCount rp \<le> filledCount rp + nodeSourcedCount rp"
proof (induction rp)
  case Nil
  show ?case by (simp add: dispatchCount_def filledCount_def nodeSourcedCount_def)
next
  case (Cons x rp)
  have "isDispatch x \<Longrightarrow> isFilled x \<or> isNodeSourced x"
    by (cases x rule: isDispatch.cases) auto
  with Cons show ?case
    by (auto simp: dispatchCount_def filledCount_def nodeSourcedCount_def)
qed

text \<open>
  C4, amended. A tick past warmup (the context live, at least \<open>slotsCount\<close> slots)
  dispatches at most one frame. When the first slot holds an item after \<open>distribute\<close>,
  that item's frame is dispatched as restamped, the filler is informed through
  \<open>NoFill\<close>, the frame goes back to the pool after the dispatch and the filled-rate
  statistic stays. Otherwise the tick counts as filled, the filled-rate statistic goes up
  by one, and the filler's frame is dispatched if the filler has one; with no frame to
  fill with, nothing is dispatched. Over any run, the ticks that filled and the ticks that
  dispatched the first slot's item add up to the ticks past warmup, the filled-rate
  statistic grows by the number of ticks that filled, and the frames dispatched are at
  most the ticks past warmup.
\<close>

theorem tick_dispatch_accounting:
  assumes "slots r \<noteq> []"
  shows
    "(\<not> ctxErr \<and> slotsCount r \<le> length (slots r) \<longrightarrow>
       (\<exists>r' tv' i filled.
          tickFunc r tv ctxErr ref = Inr (r', tv', False, Some (i, filled)) \<and>
          (case headItem (slots (distribute r)) of
             Some it \<Rightarrow>
               i = Some it \<and> \<not> filled \<and>
               r_d r' = r_d r @ [restamped r (item_f it)] \<and>
               statFilledRate r' = statFilledRate r \<and>
               r_f r' = fst (NoFill (r_f r) (r_p (distribute r)) (r_eh r) (item_f it) (item_n it) ref) \<and>
               frame_puts (r_p r') =
                 frame_puts (fst (snd (NoFill (r_f r) (r_p (distribute r)) (r_eh r) (item_f it) (item_n it) ref)))
                   @ [restamped r (item_f it)]
           | None \<Rightarrow>
               filled \<and> statFilledRate r' = statFilledRate r + 1 \<and>
               r_p r' = r_p (distribute r) \<and>
               (case Fill (r_f r) of
                  (Some f, n) \<Rightarrow> i = Some (newRateEnforcerItem f n) \<and> r_d r' = r_d r @ [restamped r f]
                | (None, n) \<Rightarrow> i = None \<and> r_d r' = r_d r)))) \<and>
     (\<exists>r' tv' reports'.
        run rescaleQ (r, tv, []) ops = Inr (r', tv', reports') \<and>
        filledCount reports' + nodeSourcedCount reports' = ticksPastWarmup rescaleQ (r, tv, []) ops \<and>
        statFilledRate r' = statFilledRate r + filledCount reports' \<and>
        length (r_d r') = length (r_d r) + dispatchCount reports' \<and>
        dispatchCount reports' \<le> ticksPastWarmup rescaleQ (r, tv, []) ops)"
proof -
  have tick: "\<not> ctxErr \<and> slotsCount r \<le> length (slots r) \<longrightarrow>
       (\<exists>r' tv' i filled.
          tickFunc r tv ctxErr ref = Inr (r', tv', False, Some (i, filled)) \<and>
          (case headItem (slots (distribute r)) of
             Some it \<Rightarrow>
               i = Some it \<and> \<not> filled \<and>
               r_d r' = r_d r @ [restamped r (item_f it)] \<and>
               statFilledRate r' = statFilledRate r \<and>
               r_f r' = fst (NoFill (r_f r) (r_p (distribute r)) (r_eh r) (item_f it) (item_n it) ref) \<and>
               frame_puts (r_p r') =
                 frame_puts (fst (snd (NoFill (r_f r) (r_p (distribute r)) (r_eh r) (item_f it) (item_n it) ref)))
                   @ [restamped r (item_f it)]
           | None \<Rightarrow>
               filled \<and> statFilledRate r' = statFilledRate r + 1 \<and>
               r_p r' = r_p (distribute r) \<and>
               (case Fill (r_f r) of
                  (Some f, n) \<Rightarrow> i = Some (newRateEnforcerItem f n) \<and> r_d r' = r_d r @ [restamped r f]
                | (None, n) \<Rightarrow> i = None \<and> r_d r' = r_d r)))"
    using tick_past_warmup [OF _ assms, of ctxErr tv ref] by blast
  from run_total [OF assms, of rescaleQ tv "[]" ops]
  obtain r' tv' reports' where rn: "run rescaleQ (r, tv, []) ops = Inr (r', tv', reports')"
    by blast
  from run_accounting [OF rn assms]
  have acc: "filledCount reports' + nodeSourcedCount reports' = ticksPastWarmup rescaleQ (r, tv, []) ops"
    "statFilledRate r' = statFilledRate r + filledCount reports'"
    "length (r_d r') = length (r_d r) + dispatchCount reports'"
    by (simp_all add: filledCount_def nodeSourcedCount_def dispatchCount_def)
  from dispatchCount_le [of reports'] acc(1)
  have "dispatchCount reports' \<le> ticksPastWarmup rescaleQ (r, tv, []) ops" by simp
  with rn acc tick show ?thesis by blast
qed

text \<open>
  C4, as the claim states it, fails: a tick past warmup need not dispatch a frame. The
  first tick of a rate enforcer created with a delay of one slot and the default filler
  is past warmup, finds the first slot nil and the filler without a frame, dispatches
  nothing and counts as filled.
\<close>

theorem tick_dispatch_counterexample:
  "(case tickFunc (NewRateEnforcer (options0 1)) tickVars0 False None of
      Inr (r', tv', stp, report) \<Rightarrow>
        slotsCount (NewRateEnforcer (options0 1)) \<le> length (slots (NewRateEnforcer (options0 1))) \<and>
        r_d r' = r_d (NewRateEnforcer (options0 1)) \<and> statFilledRate r' = 1
    | Inl e \<Rightarrow> False)"
  by code_simp

theorem tick_dispatch_accounting_witness:
  "slots (NewRateEnforcer (options0 1)) \<noteq> [] \<and>
   (case run av_rescale_q (NewRateEnforcer (options0 1), tickVars0, [])
           [OpSwitch (Some 1), OpHandleFrame (payload 1 0) None, OpRunTask None,
            OpTick False None, OpTick False None] of
      Inr (r', tv', reports') \<Rightarrow>
        filledCount reports' + nodeSourcedCount reports' = 2 \<and>
        reports' = [Some (Some \<lparr>item_f = \<lparr>frame_Pts = 0, frame_data = 0\<rparr>, item_n = Some 1\<rparr>, False),
                    Some (Some \<lparr>item_f = \<lparr>frame_Pts = 0, frame_data = 0\<rparr>, item_n = Some 1\<rparr>, True)] \<and>
        statFilledRate r' = 1 \<and> length (r_d r') = 2
    | Inl e \<Rightarrow> False)"
proof -
  define ops where "ops = [OpSwitch (Some 1), OpHandleFrame (payload 1 0) None, OpRunTask None,
            OpTick False None, OpTick False None]"
  have ne: "slots (NewRateEnforcer (options0 1)) \<noteq> []"
    by (simp add: NewRateEnforcer_def)
  have tp: "ticksPastWarmup av_rescale_q (NewRateEnforcer (options0 1), tickVars0, []) ops = 2"
    unfolding ops_def by code_simp
  have ev: "(case run av_rescale_q (NewRateEnforcer (options0 1), tickVars0, []) ops of
      Inr (r', tv', reports') \<Rightarrow>
        reports' = [Some (Some \<lparr>item_f = \<lparr>frame_Pts = 0, frame_data = 0\<rparr>, item_n = Some 1\<rparr>, False),
                    Some (Some \<lparr>item_f = \<lparr>frame_Pts = 0, frame_data = 0\<rparr>, item_n = Some 1\<rparr>, True)] \<and>
        statFilledRate r' = 1 \<and> length (r_d r') = 2
    | Inl e \<Rightarrow> False)"
    unfolding ops_def by code_simp
  from tick_dispatch_accounting [OF ne, of False tickVars0 None av_rescale_q ops]
  obtain r' tv' reports' where
    rn: "run av_rescale_q (NewRateEnforcer (options0 1), tickVars0, []) ops = Inr (r', tv', reports')"
    and acc: "filledCount reports' + nodeSourcedCount reports' =
      ticksPastWarmup av_rescale_q (NewRateEnforcer (options0 1), tickVars0, []) ops"
    by blast
  from ev rn acc tp ne show ?thesis
    unfolding ops_def [symmetric] by simp
qed



section \<open>A \<open>Ref\<close> that fails during intake\<close>

text \<open>
  C8, amended. When a \<open>Ref\<close> fails during intake, an error event is emitted, the item
  is neither queued, buffered nor dispatched, and the call returns normally. For the
  first copy in \<open>HandleFrame\<close> the slots, the buffer, the chan, the filler and the
  desired node are unchanged, and the incoming-rate statistic has counted the frame. For
  the second copy, in the function run by the chan, the buffer, the filler and the desired
  node are unchanged and the processed-rate statistic has counted the frame; every slot
  but the last is unchanged, while the last slot may already have been replaced by one
  anchored at the frame, and the switched-in event emitted, before the copy failed. For
  the rate emulator's copy the emulator (queue, tracked packets, \<open>lastAt\<close>) is
  unchanged and nobody sleeps. (What becomes of the object taken from the pool for the
  failed copy is left out of the statement.)
\<close>

theorem ref_failure_skips_item:
  assumes "slots r \<noteq> []"
  shows
    "(let r' = HandleFrame rescaleQ r p (Some err)
      in r_eh r' = r_eh r @ [EventError err ''refing frame''] \<and>
         r_c r' = r_c r \<and> buf r' = buf r \<and> r_d r' = r_d r \<and> slots r' = slots r \<and>
         r_f r' = r_f r \<and> r_n r' = r_n r \<and>
         r_statIncomingRate r' = r_statIncomingRate r + 1 \<and>
         statProcessedRate r' = statProcessedRate r) \<and>
     (\<exists>r'. handleFrameTask rescaleQ r f p (Some err) = Inr r' \<and>
        buf r' = buf r \<and> r_d r' = r_d r \<and> r_c r' = r_c r \<and>
        r_f r' = r_f r \<and> r_n r' = r_n r \<and>
        statProcessedRate r' = statProcessedRate r + 1 \<and>
        length (slots r') = length (slots r) \<and>
        butlast (slots r') = butlast (slots r) \<and>
        (last (slots r') = last (slots r) \<or> last (slots r') = Some (newRateEnforcerSlot r f)) \<and>
        (r_eh r' = r_eh r @ [EventError err ''refing frame''] \<or>
         r_eh r' = r_eh r @ [EventRateEnforcerSwitchedIn (p_Node p), EventError err ''refing frame''])) \<and>
     rateEmulator_handlePkt rescaleQ tb e pool eh pkt previousDuration (Some err) now1 now2 =
       (e, pktPool_get pool, eh @ [EventError err ''refing packet''], None)"
proof -
  have a: "(let r' = HandleFrame rescaleQ r p (Some err)
      in r_eh r' = r_eh r @ [EventError err ''refing frame''] \<and>
         r_c r' = r_c r \<and> buf r' = buf r \<and> r_d r' = r_d r \<and> slots r' = slots r \<and>
         r_f r' = r_f r \<and> r_n r' = r_n r \<and>
         r_statIncomingRate r' = r_statIncomingRate r + 1 \<and>
         statProcessedRate r' = statProcessedRate r)"
    by (simp add: HandleFrame_def Let_def emitError_def)
  have upd: "butlast (xs[length xs - 1 := x]) = butlast xs" "last (xs[length xs - 1 := x]) = x"
    if "xs \<noteq> []" for xs :: "rateEnforcerSlot option list" and x
    using that by (simp_all add: butlast_list_update last_list_update)
  have b: "\<exists>r'. handleFrameTask rescaleQ r f p (Some err) = Inr r' \<and>
        buf r' = buf r \<and> r_d r' = r_d r \<and> r_c r' = r_c r \<and>
        r_f r' = r_f r \<and> r_n r' = r_n r \<and>
        statProcessedRate r' = statProcessedRate r + 1 \<and>
        length (slots r') = length (slots r) \<and>
        butlast (slots r') = butlast (slots r) \<and>
        (last (slots r') = last (slots r) \<or> last (slots r') = Some (newRateEnforcerSlot r f)) \<and>
        (r_eh r' = r_eh r @ [EventError err ''refing frame''] \<or>
         r_eh r' = r_eh r @ [EventRateEnforcerSwitchedIn (p_Node p), EventError err ''refing frame''])"
    using assms upd [OF assms]
    by (auto simp: handleFrameTask_def Let_def emitError_def newRateEnforcerSlot_def
        split: option.splits)
  have c: "rateEmulator_handlePkt rescaleQ tb e pool eh pkt previousDuration (Some err) now1 now2 =
       (e, pktPool_get pool, eh @ [EventError err ''refing packet''], None)"
    by (simp add: rateEmulator_handlePkt_def Let_def emitError_def)
  from a b c show ?thesis by blast
qed

text \<open>
  C8, as the claim states it, fails: the failed intake can change the state beyond the
  error event. On a new rate enforcer, the function run by the chan replaces the nil tail
  slot and emits the switched-in event before its copy of the frame fails.
\<close>

theorem ref_failure_counterexample:
  "(case handleFrameTask av_rescale_q (NewRateEnforcer (options0 1)) frame0 (payload 1 0)
          (Some (ErrOther 1)) of
      Inr r' \<Rightarrow>
        slots r' \<noteq> slots (NewRateEnforcer (options0 1)) \<and>
        r_eh r' = [EventRateEnforcerSwitchedIn (Some 1), EventError (ErrOther 1) ''refing frame'']
    | Inl e \<Rightarrow> False)"
  by code_simp

theorem ref_failure_skips_item_witness:
  "slots (NewRateEnforcer (options0 1)) \<noteq> [] \<and>
   buf (HandleFrame av_rescale_q (NewRateEnforcer (options0 1)) (payload 1 0) (Some (ErrOther 1))) = [] \<and>
   r_c (HandleFrame av_rescale_q (NewRateEnforcer (options0 1)) (payload 1 0) (Some (ErrOther 1))) = [] \<and>
   r_eh (HandleFrame av_rescale_q (NewRateEnforcer (options0 1)) (payload 1 0) (Some (ErrOther 1)))
     = [EventError (ErrOther 1) ''refing frame'']"
proof -
  have ne: "slots (NewRateEnforcer (options0 1)) \<noteq> []"
    by (simp add: NewRateEnforcer_def)
  from ref_failure_skips_item [OF ne, of av_rescale_q "payload 1 0" "ErrOther 1"]
  show ?thesis
    using ne by (simp add: Let_def NewRateEnforcer_def)
qed


section \<open>Properties of the event logger\<close>

lemma bump_keys: "fst ` set (bump k t) = insert k (fst ` set t)"
  by (induction k t rule: bump.induct) auto

lemma bump_distinct: "distinct (map fst t) \<Longrightarrow> distinct (map fst (bump k t))"
proof (induction k t rule: bump.induct)
  case (1 k)
  show ?case by simp
next
  case (2 k k' n t)
  then show ?case using bump_keys [of k t] by (auto simp: image_iff)
qed

lemma bump_lookup:
  "map_of (bump k t) k' =
     (if k' = k then Some (case map_of t k of None \<Rightarrow> 1 | Some n \<Rightarrow> n + 1) else map_of t k')"
  by (induction k t rule: bump.induct) auto

lemma emits_invariant:
  assumes "distinct (map fst (entries lg))" and "\<forall>(k, n) \<in> set (entries lg). 0 < n"
  shows "distinct (map fst (entries (emits lg es))) \<and>
         (\<forall>(k, n) \<in> set (entries (emits lg es)). 0 < n) \<and>
         fst ` set (entries (emits lg es)) = fst ` set (entries lg) \<union> set (map mergeKey es) \<and>
         (\<forall>k. occurrences (entries (emits lg es)) k =
               occurrences (entries lg) k + count_list (map mergeKey es) k) \<and>
         sink (emits lg es) = sink lg @ firstMessages (fst ` set (entries lg)) es"
  using assms
proof (induction es arbitrary: lg)
  case Nil
  then show ?case by simp
next
  case (Cons e es)
  let ?lg = "emitCall lg e"
  have d: "distinct (map fst (entries ?lg))"
    using Cons.prems(1) by (simp add: emitCall_def bump_distinct)
  have ks: "fst ` set (entries ?lg) = insert (mergeKey e) (fst ` set (entries lg))"
    by (simp add: emitCall_def bump_keys)
  have oc: "occurrences (entries ?lg) k =
            occurrences (entries lg) k + (if k = mergeKey e then 1 else 0)" for k
    by (simp add: emitCall_def occurrences_def bump_lookup split: option.splits)
  have pos: "\<forall>(k, n) \<in> set (entries ?lg). 0 < n"
  proof -
    have "0 < n" if "(k, n) \<in> set (entries ?lg)" for k n
    proof -
      from that d have "map_of (entries ?lg) k = Some n" by simp
      then have "n = (if k = mergeKey e
                      then (case map_of (entries lg) k of None \<Rightarrow> 1 | Some m \<Rightarrow> m + 1)
                      else the (map_of (entries lg) k))"
        and "k \<noteq> mergeKey e \<longrightarrow> map_of (entries lg) k = Some n"
        by (auto simp: emitCall_def bump_lookup split: if_splits)
      with Cons.prems(2) show ?thesis
        by (auto split: option.splits if_splits dest!: map_of_SomeD)
    qed
    then show ?thesis by auto
  qed
  have sk: "sink ?lg = sink lg @
        (if mergeKey e \<in> fst ` set (entries lg) then [] else [message e])"
    by (simp add: emitCall_def)
  from Cons.IH [OF d pos] ks oc sk show ?case
    by (auto simp: insert_absorb)
qed

lemma emits_new:
  "distinct (map fst (entries (emits newEventLogger es)))"
  "fst ` set (entries (emits newEventLogger es)) = set (map mergeKey es)"
  "occurrences (entries (emits newEventLogger es)) k = count_list (map mergeKey es) k"
  "sink (emits newEventLogger es) = firstMessages {} es"
proof -
  have d: "distinct (map fst (entries newEventLogger))"
    and p: "\<forall>(k, n) \<in> set (entries newEventLogger). 0 < n"
    by (simp_all add: newEventLogger_def)
  note inv = emits_invariant [OF d p, of es]
  from inv show "distinct (map fst (entries (emits newEventLogger es)))" by blast
  from inv have "fst ` set (entries (emits newEventLogger es)) =
      fst ` set (entries newEventLogger) \<union> set (map mergeKey es)" by blast
  then show "fst ` set (entries (emits newEventLogger es)) = set (map mergeKey es)"
    by (simp add: newEventLogger_def)
  from inv have "\<forall>k. occurrences (entries (emits newEventLogger es)) k =
      occurrences (entries newEventLogger) k + count_list (map mergeKey es) k" by blast
  then have "occurrences (entries (emits newEventLogger es)) k =
      occurrences (entries newEventLogger) k + count_list (map mergeKey es) k" by blast
  then show "occurrences (entries (emits newEventLogger es)) k = count_list (map mergeKey es) k"
    by (simp add: newEventLogger_def occurrences_def)
  from inv have "sink (emits newEventLogger es) =
      sink newEventLogger @ firstMessages (fst ` set (entries newEventLogger)) es" by blast
  then show "sink (emits newEventLogger es) = firstMessages {} es"
    by (simp add: newEventLogger_def)
qed

lemma firstMessages_length:
  "length (firstMessages seen es) = card (set (map mergeKey es) - seen)"
proof (induction es arbitrary: seen)
  case Nil
  show ?case by simp
next
  case (Cons e es)
  show ?case
  proof (cases "mergeKey e \<in> seen")
    case True
    then have "set (map mergeKey (e # es)) - seen = set (map mergeKey es) - seen" by auto
    with True Cons.IH [of seen] show ?thesis by simp
  next
    case False
    have "set (map mergeKey (e # es)) - seen =
          insert (mergeKey e) (set (map mergeKey es) - insert (mergeKey e) seen)"
      using False by auto
    moreover have "mergeKey e \<notin> set (map mergeKey es) - insert (mergeKey e) seen" by simp
    ultimately have "card (set (map mergeKey (e # es)) - seen) =
        Suc (card (set (map mergeKey es) - insert (mergeKey e) seen))"
      by (simp del: set_map)
    with False Cons.IH [of "insert (mergeKey e) seen"] show ?thesis by simp
  qed
qed

lemma entries_as_counts:
  assumes "distinct (map fst t)"
  shows "t = map (\<lambda>k. (k, occurrences t k)) (map fst t)"
proof -
  have "(k, n) \<in> set t \<Longrightarrow> occurrences t k = n" for k n
    using assms by (simp add: occurrences_def)
  then have "map (\<lambda>kn. (fst kn, occurrences t (fst kn))) t = map (\<lambda>kn. kn) t"
    by (intro map_cong refl) auto
  then show ?thesis by (simp add: comp_def)
qed

lemma summaries_mset:
  assumes "distinct (map fst t)"
  shows "mset (summaries t) =
         image_mset (\<lambda>k. summary (snd k) (occurrences t k - 1))
           (mset_set {k \<in> fst ` set t. 2 \<le> occurrences t k})"
proof -
  let ?ks = "map fst t"
  have t: "t = map (\<lambda>k. (k, occurrences t k)) ?ks" using assms by (rule entries_as_counts)
  have "summaries t =
        map (\<lambda>(k, n). summary (snd k) (n - 1))
          (filter (\<lambda>(k, n). 2 \<le> n) (map (\<lambda>k. (k, occurrences t k)) ?ks))"
    unfolding summaries_def using t by simp
  also have "\<dots> = map (\<lambda>k. summary (snd k) (occurrences t k - 1))
                     (filter (\<lambda>k. 2 \<le> occurrences t k) ?ks)"
    by (simp add: filter_map comp_def)
  finally have s: "summaries t = map (\<lambda>k. summary (snd k) (occurrences t k - 1))
                     (filter (\<lambda>k. 2 \<le> occurrences t k) ?ks)" .
  have "distinct (filter (\<lambda>k. 2 \<le> occurrences t k) ?ks)" using assms by simp
  then have "mset (filter (\<lambda>k. 2 \<le> occurrences t k) ?ks) =
             mset_set (set (filter (\<lambda>k. 2 \<le> occurrences t k) ?ks))"
    by (rule mset_set_set [symmetric])
  moreover have "set (filter (\<lambda>k. 2 \<le> occurrences t k) ?ks) =
                 {k \<in> fst ` set t. 2 \<le> occurrences t k}"
    by auto
  ultimately have "mset (filter (\<lambda>k. 2 \<le> occurrences t k) ?ks) =
                   mset_set {k \<in> fst ` set t. 2 \<le> occurrences t k}"
    by (simp only:)
  then show ?thesis unfolding s by (simp only: mset_map)
qed

lemma test_reproduced:
  "list_all (\<lambda>(line, n). count_list (sink (flushWindow (emits newEventLogger testCalls))) line = n)
     testExpected \<and>
   length (sink (flushWindow (emits newEventLogger testCalls))) = sum_list (map snd testExpected)"
  by code_simp

text \<open>
  C7, as the claim states it, fails on the calls of \<open>TestEventLogger\<close>: with the
  pattern alone as the identity there are 11 distinct patterns, 9 of them occurring at
  least twice, which makes 20 lines, whereas the test requires 22 lines of the sink:
  \<open>Errorf("msg")\<close> twice and \<open>Infof("msg")\<close> twice give \<open>msg\<close> twice and
  \<open>pattern repeated once: msg\<close> twice, not \<open>msg\<close> once and
  \<open>pattern repeated 3 times: msg\<close>.
\<close>

theorem logger_merging_counterexample:
  "claimedLines testCalls = 20 \<and>
   sum_list (map snd testExpected) = 22 \<and>
   count_list (map pattern testCalls) ''msg'' = 4 \<and>
   map_of testExpected ''astiencoder: pattern repeated once: msg'' = Some 2 \<and>
   map_of testExpected ''astiencoder: pattern repeated 3 times: msg'' = None"
  by code_simp

text \<open>
  C7, amended: the identity of a pattern is the level of the emitter together with the
  expanded message (formatted emitters) or the format string (keyed emitters). For any
  list of calls within one window, the sink receives the message of the first occurrence
  of every pattern, then, when the window ends, one summary line for every pattern that
  occurred at least twice: the number of lines is the number of distinct patterns plus the
  number of patterns occurring at least twice. The summary of a pattern says
  \<open>repeated once\<close> when the occurrences beyond the first are one, and
  \<open>repeated N times\<close>, with \<open>N\<close> the occurrences less one, otherwise.
\<close>

theorem logger_merging:
  "sink (flushWindow (emits newEventLogger es)) =
     firstMessages {} es @ summaries (entries (emits newEventLogger es)) \<and>
   length (firstMessages {} es) = card (mergeKey ` set es) \<and>
   length (summaries (entries (emits newEventLogger es))) =
     card {k \<in> mergeKey ` set es. 2 \<le> count_list (map mergeKey es) k} \<and>
   length (sink (flushWindow (emits newEventLogger es))) =
     card (mergeKey ` set es) +
     card {k \<in> mergeKey ` set es. 2 \<le> count_list (map mergeKey es) k} \<and>
   mset (summaries (entries (emits newEventLogger es))) =
     image_mset (\<lambda>k. summary (snd k) (count_list (map mergeKey es) k - 1))
       (mset_set {k \<in> mergeKey ` set es. 2 \<le> count_list (map mergeKey es) k}) \<and>
   summary pat extras =
     ''astiencoder: '' @
     (if extras = 1 then ''pattern repeated once: ''
      else ''pattern repeated '' @ showNat extras @ '' times: '') @ pat"
proof -
  let ?t = "entries (emits newEventLogger es)"
  note n = emits_new [of es]
  have occ: "occurrences ?t = count_list (map mergeKey es)"
    using n(3) by (simp add: fun_eq_iff)
  have ks: "fst ` set ?t = mergeKey ` set es" using n(2) by simp
  have a: "sink (flushWindow (emits newEventLogger es)) = firstMessages {} es @ summaries ?t"
    by (simp add: flushWindow_def n(4))
  have b: "length (firstMessages {} es) = card (mergeKey ` set es)"
    by (simp add: firstMessages_length)
  have m: "mset (summaries ?t) =
     image_mset (\<lambda>k. summary (snd k) (count_list (map mergeKey es) k - 1))
       (mset_set {k \<in> mergeKey ` set es. 2 \<le> count_list (map mergeKey es) k})"
    using summaries_mset [OF n(1)] unfolding occ ks .
  have "size (mset (summaries ?t)) =
        card {k \<in> mergeKey ` set es. 2 \<le> count_list (map mergeKey es) k}"
    unfolding m by simp
  then have c: "length (summaries ?t) =
        card {k \<in> mergeKey ` set es. 2 \<le> count_list (map mergeKey es) k}"
    by simp
  have d: "length (sink (flushWindow (emits newEventLogger es))) =
     card (mergeKey ` set es) +
     card {k \<in> mergeKey ` set es. 2 \<le> count_list (map mergeKey es) k}"
    unfolding a using b c by simp
  have s: "summary pat extras =
     ''astiencoder: '' @
     (if extras = 1 then ''pattern repeated once: ''
      else ''pattern repeated '' @ showNat extras @ '' times: '') @ pat"
    by (simp add: summary_def)
  from a b c d m s show ?thesis by blast
qed

theorem logger_merging_witness:
  "length (sink (flushWindow (emits newEventLogger testCalls))) = 22 \<and>
   card (mergeKey ` set testCalls) = 12 \<and>
   card {k \<in> mergeKey ` set testCalls. 2 \<le> count_list (map mergeKey testCalls) k} = 10 \<and>
   sink (flushWindow (emits newEventLogger
      [Formatted Info ''purge-1'', Formatted Info ''purge-1'', Formatted Info ''purge-1'']))
     = [''purge-1'', ''astiencoder: pattern repeated 2 times: purge-1'']"
proof -
  have l: "length (sink (flushWindow (emits newEventLogger testCalls))) = 22"
    by code_simp
  have f: "length (firstMessages {} testCalls) = 12" by code_simp
  have p: "sink (flushWindow (emits newEventLogger
      [Formatted Info ''purge-1'', Formatted Info ''purge-1'', Formatted Info ''purge-1'']))
     = [''purge-1'', ''astiencoder: pattern repeated 2 times: purge-1'']"
    by code_simp
  from logger_merging [of testCalls] l f p show ?thesis by simp
qed



end
